theory Spec2Isabelle
  imports Complex_Main
begin

section \<open>JavaScript numbers\<close>

text \<open>
  The counter of \<^verbatim>\<open>ts/util/incrementMessageCounter.ts\<close> is a JavaScript
  \<^verbatim>\<open>number\<close>, an IEEE 754 double: a finite value, one of the two infinities,
  or NaN. A finite value is kept as the rational number it denotes (the two
  zeros, which \<^verbatim>\<open>===\<close>, \<^verbatim>\<open>Math.max\<close> on other values and \<^verbatim>\<open>String\<close> do
  not tell apart, are one value). \<open>Num n\<close> is the integer \<open>n\<close> as a number.
\<close>

datatype jsnum = Finite rat | PosInfinity | NegInfinity | NaN

definition Num :: "int \<Rightarrow> jsnum" where
  "Num n = Finite (of_int n)"

datatype jsval = JUndefined | JNull | JNumber jsnum | JString string

text \<open>lodash \<^verbatim>\<open>isNumber\<close>: \<^verbatim>\<open>typeof value == 'number'\<close>, which NaN satisfies.\<close>

fun isNumber :: "jsval \<Rightarrow> bool" where
  "isNumber (JNumber _) = True"
| "isNumber _ = False"

text \<open>The number of binary digits of a natural number.\<close>

fun bitlen :: "nat \<Rightarrow> nat" where
  "bitlen n = (if n = 0 then 0 else Suc (bitlen (n div 2)))"

declare bitlen.simps [simp del]

text \<open>Rounding to the nearest integer, a tie to the even one.\<close>

definition round_half_even :: "rat \<Rightarrow> int" where
  "round_half_even z =
     (let f = \<lfloor>z\<rfloor>; d = z - of_int f in
      if d < 1 / 2 then f
      else if 1 / 2 < d then f + 1
      else if even f then f else f + 1)"

text \<open>
  Rounding an exact result to a binary floating-point format with \<open>p\<close>
  significant bits, least positive value \<open>2^-q\<close> and overflow at \<open>2^emax\<close>,
  to nearest with ties to even. The magnitude is counted in units of \<open>2^-q\<close>;
  \<open>s\<close> is the number of low bits that do not fit into \<open>p\<close> bits (none for a
  subnormal magnitude), and the magnitude is rounded to a multiple of \<open>2^s\<close>
  units. A double has \<open>p = 53\<close>, \<open>q = 1074\<close> and \<open>emax = 1024\<close>.
\<close>

definition roundBinary :: "nat \<Rightarrow> nat \<Rightarrow> nat \<Rightarrow> rat \<Rightarrow> jsnum" where
  "roundBinary p q emax y =
     (let x = \<bar>y\<bar> * 2 ^ q;
          s = bitlen (nat \<lfloor>x\<rfloor>) - p;
          m = round_half_even (x / 2 ^ s);
          r = of_int m * 2 ^ s / 2 ^ q
      in if 2 ^ emax \<le> r then (if 0 < y then PosInfinity else NegInfinity)
         else Finite (if 0 < y then r else - r))"

definition roundDouble :: "rat \<Rightarrow> jsnum" where
  "roundDouble y = roundBinary 53 1074 1024 y"

text \<open>\<^verbatim>\<open>a + b\<close> on numbers: the exact sum of two finite values, rounded.\<close>

fun js_add :: "jsnum \<Rightarrow> jsnum \<Rightarrow> jsnum" where
  "js_add NaN b = NaN"
| "js_add a NaN = NaN"
| "js_add PosInfinity NegInfinity = NaN"
| "js_add NegInfinity PosInfinity = NaN"
| "js_add PosInfinity b = PosInfinity"
| "js_add a PosInfinity = PosInfinity"
| "js_add NegInfinity b = NegInfinity"
| "js_add a NegInfinity = NegInfinity"
| "js_add (Finite a) (Finite b) = roundDouble (a + b)"

text \<open>\<^verbatim>\<open>Math.max(a, b)\<close>: NaN when an argument is NaN, else the larger one.\<close>

fun Math_max :: "jsnum \<Rightarrow> jsnum \<Rightarrow> jsnum" where
  "Math_max NaN b = NaN"
| "Math_max a NaN = NaN"
| "Math_max PosInfinity b = PosInfinity"
| "Math_max a PosInfinity = PosInfinity"
| "Math_max NegInfinity b = b"
| "Math_max a NegInfinity = a"
| "Math_max (Finite a) (Finite b) = Finite (max a b)"

text \<open>\<^verbatim>\<open>a !== b\<close> on numbers: NaN differs from everything, itself included.\<close>

fun js_strict_neq :: "jsnum \<Rightarrow> jsnum \<Rightarrow> bool" where
  "js_strict_neq (Finite a) (Finite b) = (a \<noteq> b)"
| "js_strict_neq PosInfinity PosInfinity = False"
| "js_strict_neq NegInfinity NegInfinity = False"
| "js_strict_neq _ _ = True"

text \<open>\<^verbatim>\<open>a < b\<close> on numbers: false when an argument is NaN.\<close>

fun js_less :: "jsnum \<Rightarrow> jsnum \<Rightarrow> bool" where
  "js_less (Finite a) (Finite b) = (a < b)"
| "js_less NegInfinity (Finite b) = True"
| "js_less NegInfinity PosInfinity = True"
| "js_less (Finite a) PosInfinity = True"
| "js_less _ _ = False"


section \<open>Counter Store: \<^verbatim>\<open>ts/util/incrementMessageCounter.ts\<close>\<close>

datatype error =
    StrictAssertionError string
  | AssertionError string
  | RemoteError string

datatype logline = LogInfo string | LogWarn string | LogError string

text \<open>
  The module state. \<open>receivedAtCounter\<close> is the module variable
  (\<open>None\<close> is \<^verbatim>\<open>undefined\<close>). \<open>lastReceivedAtCounter\<close> is the local-storage
  item of that name: \<open>None\<close> when \<^verbatim>\<open>getItem\<close> returns \<^verbatim>\<open>null\<close>, otherwise
  the stored text, represented by the number that \<^verbatim>\<open>Number(text)\<close> reads from it
  (\<^verbatim>\<open>Number(String(x))\<close> is \<^verbatim>\<open>x\<close> for every number, so
  \<^verbatim>\<open>setItem(key, String(x))\<close> stores \<open>Some x\<close>). \<open>pendingUpdate\<close> says whether
  a call of the debounced writer is scheduled, and \<open>log\<close> collects what
  \<^verbatim>\<open>window.log\<close> received.
\<close>

record counter_state =
  receivedAtCounter :: "jsnum option"
  lastReceivedAtCounter :: "jsnum option"
  pendingUpdate :: bool
  log :: "logline list"

text \<open>\<^verbatim>\<open>Number(localStorage.getItem('lastReceivedAtCounter'))\<close>; \<^verbatim>\<open>Number(null)\<close> is 0.\<close>

definition storedCounterOf :: "counter_state \<Rightarrow> jsnum" where
  "storedCounterOf s = (case lastReceivedAtCounter s of None \<Rightarrow> Num 0 | Some v \<Rightarrow> v)"

text \<open>
  The four-way choice of \<^verbatim>\<open>initializeMessageCounter\<close>, on arbitrary values of
  \<^verbatim>\<open>dbCounter\<close> and \<^verbatim>\<open>storedCounter\<close>, with the lines it logs. The equations are
  tried in order, as the \<^verbatim>\<open>if / else if\<close> chain is.
\<close>

fun pickCounter :: "jsval \<Rightarrow> jsval \<Rightarrow> jsnum \<Rightarrow> logline list \<times> jsnum" where
  "pickCounter (JNumber dbCounter) (JNumber storedCounter) now =
     (LogInfo ''initializeMessageCounter: picking max of db/stored counters'' #
      (if js_strict_neq (Math_max dbCounter storedCounter) storedCounter
       then [LogWarn ''initializeMessageCounter: mismatch between db/stored counters'']
       else []),
      Math_max dbCounter storedCounter)"
| "pickCounter dbCounter (JNumber storedCounter) now =
     ([LogInfo ''initializeMessageCounter: picking stored counter''], storedCounter)"
| "pickCounter (JNumber dbCounter) storedCounter now =
     ([LogInfo ''initializeMessageCounter: picking fallback counter from the database''],
      dbCounter)"
| "pickCounter dbCounter storedCounter now =
     ([LogInfo ''initializeMessageCounter: defaulting to Date.now()''], now)"

text \<open>
  \<^verbatim>\<open>initializeMessageCounter()\<close> is an \<^verbatim>\<open>async\<close> function with one
  \<^verbatim>\<open>await\<close>. Up to the \<^verbatim>\<open>await\<close> it asserts that the counter is
  \<^verbatim>\<open>undefined\<close> and reads the stored counter; \<^verbatim>\<open>strictAssert\<close> throws when
  its condition is false, and a throw leaves the state as it was. Then the
  call is suspended until \<^verbatim>\<open>Data.getMaxMessageCounter()\<close> resolves, and
  whatever else is called in the meantime runs on the state.
\<close>

definition initializeBegin :: "counter_state \<Rightarrow> (error + jsnum) \<times> counter_state" where
  "initializeBegin s =
     (if receivedAtCounter s \<noteq> None
      then (Inl (StrictAssertionError ''incrementMessageCounter: already initialized''), s)
      else (Inr (storedCounterOf s), s))"

text \<open>
  The rest of the call, run when the store has resolved to \<open>dbCounter\<close>, with
  the \<open>storedCounter\<close> read before the \<^verbatim>\<open>await\<close>; \<open>now\<close> is \<^verbatim>\<open>Date.now()\<close>.
\<close>

definition initializeResume ::
  "jsnum \<Rightarrow> jsval \<Rightarrow> int \<Rightarrow> counter_state \<Rightarrow> counter_state" where
  "initializeResume storedCounter dbCounter now s =
     (let picked = pickCounter dbCounter (JNumber storedCounter) (Num now);
          c = snd picked
      in s\<lparr>receivedAtCounter := Some c,
           lastReceivedAtCounter :=
             (if js_strict_neq storedCounter c then Some c else lastReceivedAtCounter s),
           log := log s @ fst picked\<rparr>)"

text \<open>A call of \<^verbatim>\<open>initializeMessageCounter()\<close> during whose \<^verbatim>\<open>await\<close> nothing else runs.\<close>

definition initializeMessageCounter ::
  "jsval \<Rightarrow> int \<Rightarrow> counter_state \<Rightarrow> (error + unit) \<times> counter_state" where
  "initializeMessageCounter dbCounter now s =
     (case initializeBegin s of
        (Inl err, s') \<Rightarrow> (Inl err, s')
      | (Inr storedCounter, s') \<Rightarrow> (Inr (), initializeResume storedCounter dbCounter now s'))"

text \<open>
  \<^verbatim>\<open>incrementMessageCounter()\<close>: adds one, schedules the debounced write and
  returns the new value.
\<close>

definition incrementMessageCounter :: "counter_state \<Rightarrow> (error + jsnum) \<times> counter_state" where
  "incrementMessageCounter s =
     (case receivedAtCounter s of
        None \<Rightarrow> (Inl (StrictAssertionError ''incrementMessageCounter: not initialized''), s)
      | Some c \<Rightarrow>
          (Inr (js_add c (Num 1)),
           s\<lparr>receivedAtCounter := Some (js_add c (Num 1)), pendingUpdate := True\<rparr>))"

text \<open>
  The debounced writer, when it runs (its timer fires, or
  \<^verbatim>\<open>flushMessageCounter()\<close> forces it): it stores
  \<^verbatim>\<open>String(receivedAtCounter)\<close>, and \<^verbatim>\<open>String(undefined)\<close> is a text that
  \<^verbatim>\<open>Number\<close> reads as NaN. It runs only when a call is pending, and a call
  becomes pending only in \<^verbatim>\<open>incrementMessageCounter\<close>.
\<close>

definition flushMessageCounter :: "counter_state \<Rightarrow> counter_state" where
  "flushMessageCounter s =
     (if pendingUpdate s
      then s\<lparr>lastReceivedAtCounter :=
               Some (case receivedAtCounter s of None \<Rightarrow> NaN | Some c \<Rightarrow> c),
             pendingUpdate := False\<rparr>
      else s)"

text \<open>
  One process run. Besides the module state it holds the calls of
  \<^verbatim>\<open>initializeMessageCounter()\<close> that are suspended at their \<^verbatim>\<open>await\<close>, each
  with the \<open>storedCounter\<close> it read. The events of a run: a call of
  \<^verbatim>\<open>initializeMessageCounter()\<close>; the store resolving, with a value and at a
  time, for the \<open>k\<close>-th suspended call, which then runs to its end; a call of
  \<^verbatim>\<open>incrementMessageCounter()\<close>; a run of the debounced writer.
\<close>

record process =
  moduleState :: counter_state
  suspended :: "jsnum list"

datatype event =
    CallInitialize
  | StoreResolves nat jsval int
  | CallIncrement
  | WriterRuns

datatype outcome = Threw error | Returned jsnum | Suspended | Resumed | Nothing

fun step :: "event \<Rightarrow> process \<Rightarrow> outcome \<times> process" where
  "step CallInitialize p =
     (case initializeBegin (moduleState p) of
        (Inl err, s) \<Rightarrow> (Threw err, p\<lparr>moduleState := s\<rparr>)
      | (Inr storedCounter, s) \<Rightarrow>
          (Suspended, p\<lparr>moduleState := s, suspended := suspended p @ [storedCounter]\<rparr>))"
| "step (StoreResolves k dbCounter now) p =
     (if k < length (suspended p)
      then (Resumed,
            p\<lparr>moduleState := initializeResume (suspended p ! k) dbCounter now (moduleState p),
              suspended := take k (suspended p) @ drop (Suc k) (suspended p)\<rparr>)
      else (Nothing, p))"
| "step CallIncrement p =
     (case incrementMessageCounter (moduleState p) of
        (Inl err, s) \<Rightarrow> (Threw err, p\<lparr>moduleState := s\<rparr>)
      | (Inr v, s) \<Rightarrow> (Returned v, p\<lparr>moduleState := s\<rparr>))"
| "step WriterRuns p = (Nothing, p\<lparr>moduleState := flushMessageCounter (moduleState p)\<rparr>)"

text \<open>The outcomes of the events of a run, in order, and the process it leaves.\<close>

fun outcomes :: "event list \<Rightarrow> process \<Rightarrow> outcome list" where
  "outcomes [] p = []"
| "outcomes (e # es) p = fst (step e p) # outcomes es (snd (step e p))"

fun runEvents :: "event list \<Rightarrow> process \<Rightarrow> process" where
  "runEvents [] p = p"
| "runEvents (e # es) p = runEvents es (snd (step e p))"

text \<open>
  What the calls of \<^verbatim>\<open>incrementMessageCounter()\<close> of a run returned (or threw),
  first call first.
\<close>

fun returned :: "event list \<Rightarrow> process \<Rightarrow> (error + jsnum) list" where
  "returned [] p = []"
| "returned (CallIncrement # es) p =
     fst (incrementMessageCounter (moduleState p)) # returned es (snd (step CallIncrement p))"
| "returned (e # es) p = returned es (snd (step e p))"

text \<open>Every later element is a number strictly greater than every earlier one.\<close>

fun result_less :: "error + jsnum \<Rightarrow> error + jsnum \<Rightarrow> bool" where
  "result_less (Inr a) (Inr b) = js_less a b"
| "result_less _ _ = False"

definition strictlyIncreasing :: "(error + jsnum) list \<Rightarrow> bool" where
  "strictlyIncreasing rs = sorted_wrt result_less rs"

text \<open>A returned value is a finite number of magnitude below \<open>2^53\<close>.\<close>

fun safelyReturned :: "error + jsnum \<Rightarrow> bool" where
  "safelyReturned (Inr (Finite v)) = (\<bar>v\<bar> < 2 ^ 53)"
| "safelyReturned _ = False"


section \<open>Identity records and the directory of the lookup test\<close>

text \<open>
  The attributes of a \<^verbatim>\<open>ConversationModel\<close> that the reconciliation reads and
  writes (\<^verbatim>\<open>ConversationAttributesType\<close>): the local id, the phone number
  \<^verbatim>\<open>e164\<close>, the account identifier \<^verbatim>\<open>uuid\<close> and
  \<^verbatim>\<open>discoveredUnregisteredAt\<close>. An optional attribute that is not set is
  \<open>None\<close>.
\<close>

record conversation =
  conversationId :: string
  e164 :: "string option"
  uuid :: "string option"
  discoveredUnregisteredAt :: "int option"

text \<open>
  JavaScript truthiness of an optional string: \<^verbatim>\<open>null\<close>, \<^verbatim>\<open>undefined\<close> and
  the empty string are falsy.
\<close>

fun truthy :: "string option \<Rightarrow> bool" where
  "truthy None = False"
| "truthy (Some s) = (s \<noteq> [])"

text \<open>
  \<^verbatim>\<open>String.prototype.toLowerCase\<close> on the ASCII letters, which is all an account
  identifier contains.
\<close>

definition lowerChar :: "char \<Rightarrow> char" where
  "lowerChar c =
     (case map_of (zip ''ABCDEFGHIJKLMNOPQRSTUVWXYZ'' ''abcdefghijklmnopqrstuvwxyz'') c of
        Some l \<Rightarrow> l
      | None \<Rightarrow> c)"

definition toLowerCase :: "string \<Rightarrow> string" where
  "toLowerCase s = map lowerChar s"

text \<open>
  \<^verbatim>\<open>Array.prototype.find\<close>, returning the position of the first element that
  satisfies the predicate: a position identifies the object, so two results
  are the same object exactly when they are equal.
\<close>

fun findIndex :: "('a \<Rightarrow> bool) \<Rightarrow> 'a list \<Rightarrow> nat option" where
  "findIndex P [] = None"
| "findIndex P (x # xs) = (if P x then Some 0 else map_option Suc (findIndex P xs))"

text \<open>
  \<^verbatim>\<open>FakeConversationController.get(id)\<close> for a string \<open>key\<close>: the first
  conversation whose id, phone number or account identifier is \<open>key\<close>.
\<close>

definition matchesKey :: "string \<Rightarrow> conversation \<Rightarrow> bool" where
  "matchesKey key c =
     (conversationId c = key \<or> e164 c = Some key \<or> uuid c = Some key)"

definition FCC_get :: "conversation list \<Rightarrow> string \<Rightarrow> nat option" where
  "FCC_get conversations key = findIndex (matchesKey key) conversations"

text \<open>
  Modelled from the spec: the setters of \<^verbatim>\<open>ConversationModel\<close>
  (\<^verbatim>\<open>ts/models/conversations.ts\<close> is not among the sources). \<^verbatim>\<open>unset('e164')\<close>
  strips the phone number; \<^verbatim>\<open>updateE164\<close> attaches a phone number;
  \<^verbatim>\<open>updateUuid\<close> attaches an account identifier and, as the spec has it
  (``attach accountId to A; clear unregisteredAt''), clears
  \<^verbatim>\<open>discoveredUnregisteredAt\<close>.
\<close>

definition unsetE164 :: "conversation \<Rightarrow> conversation" where
  "unsetE164 c = c\<lparr>e164 := None\<rparr>"

definition updateE164 :: "string \<Rightarrow> conversation \<Rightarrow> conversation" where
  "updateE164 p c = c\<lparr>e164 := Some p\<rparr>"

definition updateUuid :: "string \<Rightarrow> conversation \<Rightarrow> conversation" where
  "updateUuid u c = c\<lparr>uuid := Some u, discoveredUnregisteredAt := None\<rparr>"

text \<open>
  \<^verbatim>\<open>FakeConversationController.maybeMergeContacts({e164, aci, reason})\<close>. The
  result is the thrown assertion error or the position of the returned
  conversation, together with the conversations after the call; a throw
  happens before any attribute is written.
\<close>

fun maybeMergeContacts ::
  "string option \<Rightarrow> string option \<Rightarrow> string option \<Rightarrow> conversation list \<Rightarrow>
   (error + nat) \<times> conversation list" where
  "maybeMergeContacts (Some p) (Some uuidFromServer) reason conversations =
     (if p = [] then
        (Inl (AssertionError
          ''FakeConversationController is not set up for this case (E164 must be provided)''),
         conversations)
      else if uuidFromServer = [] then
        (Inl (AssertionError
          ''FakeConversationController is not set up for this case (UUID must be provided)''),
         conversations)
      else if \<not> truthy reason then
        (Inl (AssertionError
          ''FakeConversationController must be provided a reason when merging''),
         conversations)
      else
        let normalizedUuid = toLowerCase uuidFromServer in
        (case (FCC_get conversations p, FCC_get conversations normalizedUuid) of
           (None, None) \<Rightarrow>
             (Inl (AssertionError
               ''FakeConversationController is not set up for this case (at least one conversation should be found)''),
              conversations)
         | (Some convoE164, Some convoUuid) \<Rightarrow>
             (if convoE164 = convoUuid then (Inr convoUuid, conversations)
              else
                let cs1 = conversations[convoE164 := unsetE164 (conversations ! convoE164)];
                    cs2 = cs1[convoUuid := updateE164 p (cs1 ! convoUuid)]
                in (Inr convoUuid, cs2))
         | (Some convoE164, None) \<Rightarrow>
             (Inr convoE164,
              conversations[convoE164 := updateUuid normalizedUuid (conversations ! convoE164)])
         | (None, Some convoUuid) \<Rightarrow>
             (Inl (AssertionError ''FakeConversationController should never get here''),
              conversations)))"
| "maybeMergeContacts None uuidFromServer reason conversations =
     (Inl (AssertionError
       ''FakeConversationController is not set up for this case (E164 must be provided)''),
      conversations)"
| "maybeMergeContacts (Some p) None reason conversations =
     (if p = [] then
        (Inl (AssertionError
          ''FakeConversationController is not set up for this case (E164 must be provided)''),
         conversations)
      else
        (Inl (AssertionError
          ''FakeConversationController is not set up for this case (UUID must be provided)''),
         conversations))"

text \<open>An observation \<open>(phone number, account identifier, reason)\<close> handed to the resolver.\<close>

type_synonym observation = "string option \<times> string option \<times> string option"

definition mergeObservation :: "observation \<Rightarrow> conversation list \<Rightarrow> conversation list" where
  "mergeObservation ob conversations =
     snd (maybeMergeContacts (fst ob) (fst (snd ob)) (snd (snd ob)) conversations)"

text \<open>
  A sequence of merges, each applied to the directory the previous one left
  (a call that throws leaves it as it was).
\<close>

fun mergeAll :: "observation list \<Rightarrow> conversation list \<Rightarrow> conversation list" where
  "mergeAll [] conversations = conversations"
| "mergeAll (ob # obs) conversations = mergeAll obs (mergeObservation ob conversations)"

text \<open>
  Uniqueness: no two distinct records hold the same non-empty phone number,
  and no two distinct records hold the same non-empty account identifier.
\<close>

definition uniqueVals :: "string option list \<Rightarrow> bool" where
  "uniqueVals vs =
     (\<forall>i \<in> {..<length vs}. \<forall>j \<in> {..<length vs}.
        i \<noteq> j \<longrightarrow> truthy (vs ! i) \<longrightarrow> vs ! i \<noteq> vs ! j)"

definition uniqueBy :: "(conversation \<Rightarrow> string option) \<Rightarrow> conversation list \<Rightarrow> bool" where
  "uniqueBy field conversations = uniqueVals (map field conversations)"

definition uniqueness :: "conversation list \<Rightarrow> bool" where
  "uniqueness conversations = (uniqueBy e164 conversations \<and> uniqueBy uuid conversations)"

text \<open>
  Phone numbers are E.164 texts and local ids and account identifiers are
  UUID texts, so a phone number is never an id or an account identifier.
  \<open>notAnIdentifier p cs\<close> says so for the phone number \<open>p\<close> and the records
  of \<open>cs\<close>; \<open>notAPhoneNumber u cs\<close> says that no record holds \<open>u\<close> as its
  phone number.
\<close>

definition notAnIdentifier :: "string \<Rightarrow> conversation list \<Rightarrow> bool" where
  "notAnIdentifier p conversations =
     (\<forall>c \<in> set conversations. conversationId c \<noteq> p \<and> uuid c \<noteq> Some p)"

definition notAPhoneNumber :: "string \<Rightarrow> conversation list \<Rightarrow> bool" where
  "notAPhoneNumber u conversations = (\<forall>c \<in> set conversations. e164 c \<noteq> Some u)"

text \<open>
  The same for a sequence of observations: none of the observed phone
  numbers is the id or account identifier of a record, or an observed
  account identifier in the form it is stored in.
\<close>

definition phonesOf :: "observation list \<Rightarrow> string list" where
  "phonesOf obs = concat (map (\<lambda>ob. case fst ob of None \<Rightarrow> [] | Some p \<Rightarrow> [p]) obs)"

definition identifiersOf :: "observation list \<Rightarrow> string list" where
  "identifiersOf obs =
     concat (map (\<lambda>ob. case fst (snd ob) of None \<Rightarrow> [] | Some u \<Rightarrow> [toLowerCase u]) obs)"

definition namespacesDisjoint :: "observation list \<Rightarrow> conversation list \<Rightarrow> bool" where
  "namespacesDisjoint obs conversations =
     (\<forall>p \<in> set (phonesOf obs).
        notAnIdentifier p conversations \<and> p \<notin> set (identifiersOf obs))"

text \<open>A record is retired when no record of the directory carries its local id any more.\<close>

definition retired :: "string \<Rightarrow> conversation list \<Rightarrow> bool" where
  "retired localId conversations = (\<forall>c \<in> set conversations. conversationId c \<noteq> localId)"


section \<open>Batch lookup: \<^verbatim>\<open>updateConversationsWithUuidLookup\<close>\<close>

text \<open>
  The two remote services the coordinator consumes, as the test stubs them
  (\<^verbatim>\<open>cdsLookup\<close>, \<^verbatim>\<open>checkAccountExistence\<close>). \<open>None\<close> is a failed call.
  A directory lookup answers with the account identifiers of the phone numbers
  it found and omits the others.
\<close>

record server =
  cdsLookup :: "string list \<Rightarrow> (string \<Rightarrow> string option) option"
  checkAccountExistence :: "conversation \<Rightarrow> bool option"

text \<open>
  Modelled from the spec: marking a record unregistered (section 4.3: the
  record ``has its accountId cleared and unregisteredAt set to the current
  time''); \<^verbatim>\<open>ConversationModel.setUnregistered\<close> is not among the sources.
\<close>

definition markUnregistered :: "int \<Rightarrow> conversation \<Rightarrow> conversation" where
  "markUnregistered now c = c\<lparr>uuid := None, discoveredUnregisteredAt := Some now\<rparr>"

text \<open>
  The existence checks issued during a batch, in order: the position of the
  candidate each was issued for, with the answer (\<open>Some False\<close> is ``does not
  exist'', \<open>None\<close> a failed check).
\<close>

type_synonym checks = "(nat \<times> bool option) list"

text \<open>
  Modelled from the spec: steps 3 and 4 of the Batch Lookup Coordinator
  (section 4.4) for one candidate; \<^verbatim>\<open>ts/updateConversationsWithUuidLookup.ts\<close>
  is not among the sources, only its test is. The state is the directory
  together with the existence checks issued so far. The candidate is the
  record at position \<open>i\<close> of the directory. A candidate without a phone
  number is skipped. A phone number that received an account identifier is
  routed through the resolver. For a phone number that received none, the
  existence check is issued, and only the answer ``does not exist'' marks the
  record unregistered: an answer ``exists'' and a failed check leave it as it
  is.
\<close>

definition reconcileCandidate ::
  "server \<Rightarrow> int \<Rightarrow> (string \<Rightarrow> string option) \<Rightarrow> nat \<Rightarrow>
   conversation list \<times> checks \<Rightarrow> conversation list \<times> checks" where
  "reconcileCandidate srv now serverLookup i state =
     (let conversations = fst state; issued = snd state in
      case e164 (conversations ! i) of
        None \<Rightarrow> state
      | Some p \<Rightarrow>
          (if p = [] then state
           else
             (case serverLookup p of
                Some aci \<Rightarrow>
                  (snd (maybeMergeContacts (Some p) (Some aci)
                          (Some ''updateConversationsWithUuidLookup'') conversations),
                   issued)
              | None \<Rightarrow>
                  (let doesAccountExist = checkAccountExistence srv (conversations ! i) in
                   ((case doesAccountExist of
                       Some False \<Rightarrow>
                         conversations[i := markUnregistered now (conversations ! i)]
                     | _ \<Rightarrow> conversations),
                    issued @ [(i, doesAccountExist)])))))"

text \<open>
  Modelled from the spec: the Batch Lookup Coordinator (section 4.4). Step 1
  drops the candidates without a phone number, and with nothing left the
  lookup is not invoked. Step 2 invokes the directory lookup (one batch); a
  failed lookup leaves the candidates unresolved. Steps 3 and 4 are
  \<open>reconcileCandidate\<close>, candidate after candidate. The result is the
  directory after the batch and the existence checks the batch issued.
\<close>

definition candidatePhones :: "nat list \<Rightarrow> conversation list \<Rightarrow> string list" where
  "candidatePhones candidates conversations =
     concat (map (\<lambda>i. case e164 (conversations ! i) of
                         None \<Rightarrow> []
                       | Some p \<Rightarrow> (if p = [] then [] else [p])) candidates)"

definition updateConversationsWithUuidLookup ::
  "server \<Rightarrow> int \<Rightarrow> nat list \<Rightarrow> conversation list \<Rightarrow> conversation list \<times> checks" where
  "updateConversationsWithUuidLookup srv now candidates conversations =
     (let e164s = candidatePhones candidates conversations in
      if e164s = [] then (conversations, [])
      else
        (case cdsLookup srv e164s of
           None \<Rightarrow> (conversations, [])
         | Some serverLookup \<Rightarrow>
             fold (reconcileCandidate srv now serverLookup) candidates (conversations, [])))"

text \<open>The lookup returned no result for the record: none for its phone number, if it has one.\<close>

definition lookupOmits :: "(string \<Rightarrow> string option) \<Rightarrow> conversation \<Rightarrow> bool" where
  "lookupOmits serverLookup c =
     (case e164 c of None \<Rightarrow> True | Some p \<Rightarrow> serverLookup p = None)"

text \<open>
  The record does not contradict the lookup: if the lookup returned an
  account identifier for its phone number, the record is the one the
  directory finds for that identifier (by its account identifier or its id).
\<close>

definition agreesWithLookup :: "(string \<Rightarrow> string option) \<Rightarrow> conversation \<Rightarrow> bool" where
  "agreesWithLookup serverLookup c =
     (case e164 c of
        None \<Rightarrow> True
      | Some p \<Rightarrow>
          (case serverLookup p of
             None \<Rightarrow> True
           | Some aci \<Rightarrow>
               uuid c = Some (toLowerCase aci) \<or> conversationId c = toLowerCase aci))"

text \<open>
  Phone numbers and identifiers come from separate namespaces: a phone number
  that a record holds is no record's local id or account identifier, and is
  not the account identifier that the lookup returned for a phone number that
  a record holds.
\<close>

definition separateNamespaces ::
  "(string \<Rightarrow> string option) \<Rightarrow> conversation list \<Rightarrow> bool" where
  "separateNamespaces serverLookup conversations =
     (\<forall>c \<in> set conversations.
        case e164 c of
          None \<Rightarrow> True
        | Some p \<Rightarrow>
            notAnIdentifier p conversations \<and>
            (\<forall>d \<in> set conversations.
               case e164 d of
                 None \<Rightarrow> True
               | Some q \<Rightarrow>
                   (case serverLookup q of
                      None \<Rightarrow> True
                    | Some aci \<Rightarrow> toLowerCase aci \<noteq> p)))"

section \<open>Account check: the \<^verbatim>\<open>accounts\<close> duck (\<^verbatim>\<open>checkForAccount\<close> and its reducer)\<close>

text \<open>
  \<^verbatim>\<open>AccountsStateType\<close>: \<^verbatim>\<open>accounts\<close> is a
  \<^verbatim>\<open>Record<string, UUIDStringType | undefined>\<close>. A key that the object owns
  with the value \<^verbatim>\<open>undefined\<close> is \<open>Some None\<close>; a key it does not own is
  \<open>None\<close>.
\<close>

record accountsState =
  accounts :: "string \<Rightarrow> string option option"

datatype action = NOOP | AccountsUpdate string "string option"

definition getEmptyState :: accountsState where
  "getEmptyState = \<lparr>accounts = (\<lambda>_. None)\<rparr>"

text \<open>
  \<^verbatim>\<open>reducer(state = getEmptyState(), action)\<close>: \<open>None\<close> is the state
  \<^verbatim>\<open>undefined\<close>, which the default parameter replaces.
\<close>

definition reducer :: "accountsState option \<Rightarrow> action \<Rightarrow> accountsState" where
  "reducer state act =
     (let st = (case state of None \<Rightarrow> getEmptyState | Some st \<Rightarrow> st) in
      case act of
        AccountsUpdate phoneNumber u \<Rightarrow>
          st\<lparr>accounts := (accounts st)(phoneNumber := Some u)\<rparr>
      | NOOP \<Rightarrow> st)"

text \<open>
  What a run of the thunk can see outside the Redux state:
  whether \<^verbatim>\<open>window.textsecure.server\<close> is there, what
  \<^verbatim>\<open>window.ConversationController.get\<close> finds, and what the two calls inside the
  \<^verbatim>\<open>try\<close> block do. \<^verbatim>\<open>getUuidsForE164s\<close> either throws or returns, for the
  phone numbers it found, the pair of account identifier and secondary
  identifier; \<^verbatim>\<open>maybeMergeContacts\<close> either throws or returns the conversation
  it settled on (or none).
\<close>

record account_env =
  serverPresent :: bool
  controllerGet :: "string \<Rightarrow> conversation option"
  getUuidsForE164s ::
    "string list \<Rightarrow> error + (string \<Rightarrow> (string option \<times> string option) option)"
  controllerMerge ::
    "string option \<Rightarrow> string option \<Rightarrow> string option \<Rightarrow> string option \<Rightarrow>
     error + conversation option"

text \<open>What a run of the thunk does, in order.\<close>

datatype effect =
    Logged logline
  | RemoteLookup "string list"
  | Dispatched action

definition conversationUuid :: "conversation option \<Rightarrow> string option" where
  "conversationUuid c = (case c of None \<Rightarrow> None | Some conv \<Rightarrow> uuid conv)"

text \<open>
  \<^verbatim>\<open>checkForAccount(phoneNumber)\<close>, run with \<open>getState()\<close> returning
  \<open>state\<close>: what the returned promise settles to and the effects of the run.
  An exception thrown inside the \<^verbatim>\<open>try\<close> block is caught and logged (the
  logged line is kept without the formatted error), and the run goes on to
  dispatch the update with \<^verbatim>\<open>uuid\<close> still \<^verbatim>\<open>undefined\<close>.
\<close>

definition checkForAccount ::
  "account_env \<Rightarrow> string \<Rightarrow> accountsState \<Rightarrow> (error + unit) \<times> effect list" where
  "checkForAccount env phoneNumber state =
     (if \<not> serverPresent env then (Inr (), [Dispatched NOOP])
      else if truthy (conversationUuid (controllerGet env phoneNumber)) then
        (Inr (),
         [Logged (LogInfo (''checkForAccount: found '' @ phoneNumber @ '' in existing contacts'')),
          Dispatched (AccountsUpdate phoneNumber
                        (conversationUuid (controllerGet env phoneNumber)))])
      else if accounts state phoneNumber \<noteq> None then (Inr (), [Dispatched NOOP])
      else
        (Inr (),
         [Logged (LogInfo (''checkForAccount: looking '' @ phoneNumber @ '' up on server'')),
          RemoteLookup [phoneNumber]] @
         (case getUuidsForE164s env [phoneNumber] of
            Inl err \<Rightarrow>
              [Logged (LogError ''checkForAccount:''),
               Dispatched (AccountsUpdate phoneNumber None)]
          | Inr uuidLookup \<Rightarrow>
              (case uuidLookup phoneNumber of
                 None \<Rightarrow> [Dispatched (AccountsUpdate phoneNumber None)]
               | Some maybePair \<Rightarrow>
                   (case controllerMerge env (fst maybePair) (snd maybePair)
                           (Some phoneNumber) (Some ''checkForAccount'') of
                      Inl err \<Rightarrow>
                        [Logged (LogError ''checkForAccount:''),
                         Dispatched (AccountsUpdate phoneNumber None)]
                    | Inr maybeMerged \<Rightarrow>
                        [Dispatched (AccountsUpdate phoneNumber
                                       (conversationUuid maybeMerged))])))))"

text \<open>The store after the actions a run dispatched went through the reducer.\<close>

fun applyEffects :: "effect list \<Rightarrow> accountsState \<Rightarrow> accountsState" where
  "applyEffects [] state = state"
| "applyEffects (Dispatched act # es) state = applyEffects es (reducer (Some state) act)"
| "applyEffects (e # es) state = applyEffects es state"

text \<open>
  The store after a sequence of actions went through the reducer, whoever
  dispatched them (for this reducer every action of another duck is a
  \<^verbatim>\<open>NOOP\<close>: it returns the state).
\<close>

fun dispatchAll :: "action list \<Rightarrow> accountsState \<Rightarrow> accountsState" where
  "dispatchAll [] state = state"
| "dispatchAll (act # acts) state = dispatchAll acts (reducer (Some state) act)"

definition performedRemoteLookup :: "effect list \<Rightarrow> bool" where
  "performedRemoteLookup es = (\<exists>e \<in> set es. case e of RemoteLookup _ \<Rightarrow> True | _ \<Rightarrow> False)"


section \<open>Concrete states used in the examples\<close>

definition freshState :: counter_state where
  "freshState = \<lparr>receivedAtCounter = None, lastReceivedAtCounter = None,
     pendingUpdate = False, log = []\<rparr>"

definition checkpointState :: counter_state where
  "checkpointState = \<lparr>receivedAtCounter = None, lastReceivedAtCounter = Some (Num 5),
     pendingUpdate = False, log = []\<rparr>"

definition seededState :: counter_state where
  "seededState = \<lparr>receivedAtCounter = Some (Num 10), lastReceivedAtCounter = Some (Num 10),
     pendingUpdate = False, log = []\<rparr>"

text \<open>
  A checkpoint that \<^verbatim>\<open>Number\<close> reads as NaN, and the checkpoint \<open>2^53 - 1\<close>.
\<close>

definition nanCheckpointState :: counter_state where
  "nanCheckpointState = \<lparr>receivedAtCounter = None, lastReceivedAtCounter = Some NaN,
     pendingUpdate = False, log = []\<rparr>"

definition limitCheckpointState :: counter_state where
  "limitCheckpointState = \<lparr>receivedAtCounter = None,
     lastReceivedAtCounter = Some (Num 9007199254740991), pendingUpdate = False, log = []\<rparr>"

text \<open>A process before any call, and one whose counter is initialised with 10.\<close>

definition freshProcess :: process where
  "freshProcess = \<lparr>moduleState = freshState, suspended = []\<rparr>"

definition seededProcess :: process where
  "seededProcess = \<lparr>moduleState = seededState, suspended = []\<rparr>"

text \<open>
  Two overlapping calls of \<^verbatim>\<open>initializeMessageCounter()\<close>: the second starts
  while the first awaits the store, and the store then resolves for the first.
\<close>

definition overlappingCalls :: "event list" where
  "overlappingCalls = [CallInitialize, CallInitialize, StoreResolves 0 (JNumber (Num 7)) 1000]"

text \<open>
  A directory of two records: the first holds only a phone number, the second
  only an account identifier.
\<close>

definition recordA :: conversation where
  "recordA = \<lparr>conversationId = ''11111111-aaaa'', e164 = Some ''+13215559876'',
     uuid = None, discoveredUnregisteredAt = None\<rparr>"

definition recordB :: conversation where
  "recordB = \<lparr>conversationId = ''22222222-bbbb'', e164 = None,
     uuid = Some ''33333333-cccc'', discoveredUnregisteredAt = None\<rparr>"

definition directoryAB :: "conversation list" where
  "directoryAB = [recordA, recordB]"

definition observationAB :: observation where
  "observationAB = (Some ''+13215559876'', Some ''33333333-CCCC'', Some ''test'')"

text \<open>
  The candidates of the lookup test: a record with a phone number and an
  account identifier, and one with a phone number only; a directory service
  that finds nobody, with an existence check that answers ``exists'' or
  ``does not exist''.
\<close>

definition recordKnown :: conversation where
  "recordKnown = \<lparr>conversationId = ''44444444-dddd'', e164 = Some ''+16545559876'',
     uuid = Some ''55555555-eeee'', discoveredUnregisteredAt = None\<rparr>"

definition serverExists :: server where
  "serverExists = \<lparr>cdsLookup = (\<lambda>_. Some (\<lambda>_. None)),
     checkAccountExistence = (\<lambda>_. Some True)\<rparr>"

definition serverGone :: server where
  "serverGone = \<lparr>cdsLookup = (\<lambda>_. Some (\<lambda>_. None)),
     checkAccountExistence = (\<lambda>_. Some False)\<rparr>"

text \<open>A directory service that finds both phone numbers of the lookup test.\<close>

definition serverFinds :: server where
  "serverFinds = \<lparr>cdsLookup = (\<lambda>_. Some (map_of
       [(''+13215559876'', ''66666666-ffff''), (''+16545559876'', ''77777777-aaaa'')])),
     checkAccountExistence = (\<lambda>_. Some False)\<rparr>"

text \<open>
  A directory service that finds only the first phone number of the lookup
  test, with an existence check that answers ``exists'' (\<open>serverFindsOne\<close>)
  or ``does not exist'' (\<open>serverLosesOne\<close>); and a third record, which
  holds a phone number only.
\<close>

definition serverFindsOne :: server where
  "serverFindsOne = \<lparr>cdsLookup = (\<lambda>_. Some (map_of
       [(''+13215559876'', ''66666666-ffff'')])),
     checkAccountExistence = (\<lambda>_. Some True)\<rparr>"

definition serverLosesOne :: server where
  "serverLosesOne = \<lparr>cdsLookup = (\<lambda>_. Some (map_of
       [(''+13215559876'', ''66666666-ffff'')])),
     checkAccountExistence = (\<lambda>_. Some False)\<rparr>"

definition recordC :: conversation where
  "recordC = \<lparr>conversationId = ''88888888-bbbb'', e164 = Some ''+17775559876'',
     uuid = None, discoveredUnregisteredAt = None\<rparr>"

text \<open>
  A run of \<^verbatim>\<open>checkForAccount\<close> whose remote lookup fails: the server is there,
  the directory knows no conversation, and \<^verbatim>\<open>getUuidsForE164s\<close> throws. In
  \<open>recoveredEnv\<close> the remote service answers again.
\<close>

definition failingEnv :: account_env where
  "failingEnv = \<lparr>serverPresent = True, controllerGet = (\<lambda>_. None),
     getUuidsForE164s = (\<lambda>_. Inl (RemoteError ''rate limited'')),
     controllerMerge = (\<lambda>_ _ _ _. Inr None)\<rparr>"

definition recoveredEnv :: account_env where
  "recoveredEnv = \<lparr>serverPresent = True, controllerGet = (\<lambda>_. None),
     getUuidsForE164s = (\<lambda>_. Inr (\<lambda>_. Some (Some ''55555555-eeee'', None))),
     controllerMerge = (\<lambda>_ _ _ _. Inr (Some recordKnown))\<rparr>"


section \<open>Properties of the rounding of doubles\<close>

lemma bitlen_0 [simp]: "bitlen 0 = 0"
  by (simp add: bitlen.simps)

lemma bitlen_1 [simp]: "bitlen (Suc 0) = Suc 0"
  by (simp add: bitlen.simps [of "Suc 0"])

lemma bitlen_bounds: "0 < n \<Longrightarrow> 2 ^ (bitlen n - 1) \<le> n \<and> n < 2 ^ bitlen n"
proof (induction n rule: bitlen.induct)
  case (1 n)
  show ?case
  proof (cases "n div 2 = 0")
    case True
    with "1.prems" have "n = 1" by (metis One_nat_def div_less div_eq_0_iff less_2_cases_iff nat_neq_iff zero_neq_numeral)
    then show ?thesis by simp
  next
    case False
    then have pos: "0 < n div 2" by simp
    from "1.prems" have n0: "n \<noteq> 0" by simp
    from "1.IH" [OF n0 pos] have lo: "2 ^ (bitlen (n div 2) - 1) \<le> n div 2"
      and hi: "n div 2 < 2 ^ bitlen (n div 2)" by simp_all
    have bl: "bitlen n = Suc (bitlen (n div 2))" using n0 by (simp add: bitlen.simps [of n])
    from pos have "0 < bitlen (n div 2)" by (simp add: bitlen.simps [of "n div 2"])
    then obtain k where k: "bitlen (n div 2) = Suc k" by (cases "bitlen (n div 2)") auto
    from lo k have "2 ^ k \<le> n div 2" by simp
    then have "2 * 2 ^ k \<le> n" by linarith
    moreover from hi have "n < 2 * 2 ^ bitlen (n div 2)" by linarith
    ultimately show ?thesis using bl k by simp
  qed
qed

lemma bitlen_le: "n < 2 ^ k \<Longrightarrow> bitlen n \<le> k"
proof (cases "n = 0")
  case True then show ?thesis by simp
next
  case False
  assume a: "n < 2 ^ k"
  from False bitlen_bounds [of n] have "2 ^ (bitlen n - 1) \<le> n" by simp
  with a have "(2::nat) ^ (bitlen n - 1) < 2 ^ k" by linarith
  then have "bitlen n - 1 < k" by simp
  then show ?thesis by linarith
qed

lemma bitlen_ge: "2 ^ k \<le> n \<Longrightarrow> k < bitlen n"
proof -
  assume a: "2 ^ k \<le> n"
  then have "0 < n" by (metis less_le_trans zero_less_numeral zero_less_power)
  with bitlen_bounds [of n] have "n < 2 ^ bitlen n" by simp
  with a have "(2::nat) ^ k < 2 ^ bitlen n" by linarith
  then show ?thesis by simp
qed

lemma round_half_even_error: "\<bar>of_int (round_half_even z) - z\<bar> \<le> 1 / 2"
proof -
  have "of_int \<lfloor>z\<rfloor> \<le> z" "z < of_int \<lfloor>z\<rfloor> + 1" by linarith+
  then show ?thesis
    by (auto simp: round_half_even_def Let_def)
qed

lemma round_half_even_int [simp]: "round_half_even (of_int n) = n"
  by (simp add: round_half_even_def)

lemma round_half_even_ge: "of_int n \<le> z \<Longrightarrow> n \<le> round_half_even z"
proof -
  assume "of_int n \<le> z"
  then have "n \<le> \<lfloor>z\<rfloor>" by (simp add: le_floor_iff)
  then show ?thesis by (auto simp: round_half_even_def Let_def)
qed


lemma bitlen_eq: "2 ^ k \<le> n \<Longrightarrow> n < 2 ^ Suc k \<Longrightarrow> bitlen n = Suc k"
  using bitlen_le [of n "Suc k"] bitlen_ge [of k n] by linarith

lemma shift_small:
  fixes a :: rat
  assumes "0 \<le> a" and "a < 2 ^ p"
  shows "bitlen (nat \<lfloor>a * 2 ^ q\<rfloor>) - p \<le> q"
proof -
  from assms have "a * 2 ^ q < 2 ^ p * 2 ^ q" by simp
  then have "a * 2 ^ q < 2 ^ (p + q)" by (simp add: power_add)
  then have "\<lfloor>a * 2 ^ q\<rfloor> < 2 ^ (p + q)" by (simp add: floor_less_iff)
  then have "nat \<lfloor>a * 2 ^ q\<rfloor> < 2 ^ (p + q)" by (simp add: nat_less_iff)
  then have "bitlen (nat \<lfloor>a * 2 ^ q\<rfloor>) \<le> p + q" by (rule bitlen_le)
  then show ?thesis by simp
qed

lemma roundBinary_near:
  assumes y: "\<bar>y\<bar> < 2 ^ p" and pe: "p < emax"
  shows "\<exists>r. roundBinary p q emax y = Finite r \<and> \<bar>r - y\<bar> \<le> 1 / 2"
proof -
  define x where "x = \<bar>y\<bar> * 2 ^ q"
  define s where "s = bitlen (nat \<lfloor>x\<rfloor>) - p"
  define m where "m = round_half_even (x / 2 ^ s)"
  define r where "r = (of_int m :: rat) * 2 ^ s / 2 ^ q"
  from shift_small [of "\<bar>y\<bar>" p q] y have sq: "s \<le> q" by (simp add: s_def x_def)
  then have ratio: "(2::rat) ^ s / 2 ^ q \<le> 1" by (simp add: power_increasing)
  have "\<bar>of_int m - x / 2 ^ s\<bar> \<le> 1 / 2" unfolding m_def by (rule round_half_even_error)
  then have e1: "\<bar>of_int m - x / 2 ^ s\<bar> * (2 ^ s / 2 ^ q) \<le> 1 / 2 * 1"
    using ratio by (intro mult_mono) simp_all
  have e2: "\<bar>of_int m - x / 2 ^ s\<bar> * (2 ^ s / 2 ^ q) = \<bar>r - \<bar>y\<bar>\<bar>"
  proof -
    have "(of_int m - x / 2 ^ s) * (2 ^ s / 2 ^ q) = r - \<bar>y\<bar>"
      by (simp add: r_def x_def field_simps)
    then have "\<bar>(of_int m - x / 2 ^ s) * (2 ^ s / 2 ^ q)\<bar> = \<bar>r - \<bar>y\<bar>\<bar>" by simp
    then show ?thesis by (simp add: abs_mult)
  qed
  from e1 have near: "\<bar>r - \<bar>y\<bar>\<bar> \<le> 1 / 2" unfolding e2 by simp
  from pe have "Suc p \<le> emax" by simp
  then have "(2::rat) ^ Suc p \<le> 2 ^ emax" by (rule power_increasing) simp
  then have h1: "2 * (2::rat) ^ p \<le> 2 ^ emax" by simp
  have h2: "(1::rat) \<le> 2 ^ p" by simp
  from h1 h2 y have "\<bar>y\<bar> + 1 / 2 < 2 ^ emax" by linarith
  with near have fin: "\<not> 2 ^ emax \<le> r" by linarith
  have res: "roundBinary p q emax y = Finite (if 0 < y then r else - r)"
    using fin unfolding roundBinary_def Let_def x_def [symmetric] s_def [symmetric]
      m_def [symmetric] r_def [symmetric] by simp
  have "\<bar>(if 0 < y then r else - r) - y\<bar> \<le> 1 / 2" using near by (auto simp: abs_if split: if_splits)
  with res show ?thesis by blast
qed

lemma roundBinary_large:
  assumes y: "2 ^ p \<le> \<bar>y\<bar>" and p: "0 < p" and res: "roundBinary p q emax y = Finite r"
  shows "2 ^ p \<le> \<bar>r\<bar>"
proof -
  define x where "x = \<bar>y\<bar> * 2 ^ q"
  define n where "n = nat \<lfloor>x\<rfloor>"
  define s where "s = bitlen n - p"
  define m where "m = round_half_even (x / 2 ^ s)"
  define r' where "r' = (of_int m :: rat) * 2 ^ s / 2 ^ q"
  from y have "2 ^ p * 2 ^ q \<le> x" by (simp add: x_def)
  then have xl: "2 ^ (p + q) \<le> x" by (simp add: power_add)
  then have "2 ^ (p + q) \<le> \<lfloor>x\<rfloor>" by (simp add: le_floor_iff)
  then have nl: "2 ^ (p + q) \<le> n" unfolding n_def by (simp add: le_nat_iff)
  from bitlen_ge [OF nl] have bl: "p + q < bitlen n" .
  then have sq: "q < s" and sb: "bitlen n = s + p" by (simp_all add: s_def)
  from nl have npos: "0 < n" by (metis less_le_trans zero_less_numeral zero_less_power)
  from bitlen_bounds [OF npos] have "2 ^ (bitlen n - 1) \<le> n" by simp
  moreover from sb p have "bitlen n - 1 = s + (p - 1)" by simp
  ultimately have "2 ^ (s + (p - 1)) \<le> n" by simp
  then have "(2::rat) ^ (s + (p - 1)) \<le> of_nat n" by (metis of_nat_le_iff of_nat_numeral of_nat_power)
  moreover have "of_nat n \<le> x"
  proof -
    have "0 \<le> x" by (simp add: x_def)
    then have "0 \<le> \<lfloor>x\<rfloor>" by simp
    then have "of_nat n = (of_int \<lfloor>x\<rfloor> :: rat)" by (simp add: n_def)
    then show ?thesis by simp
  qed
  ultimately have "(2::rat) ^ s * 2 ^ (p - 1) \<le> x" by (simp add: power_add)
  then have "(2::rat) ^ (p - 1) \<le> x / 2 ^ s" by (simp add: field_simps)
  then have "of_int (2 ^ (p - 1)) \<le> x / 2 ^ s" by simp
  then have ml: "2 ^ (p - 1) \<le> m" unfolding m_def by (rule round_half_even_ge)
  then have "(2::rat) ^ (p - 1) \<le> of_int m" by (metis of_int_le_iff of_int_numeral of_int_power)
  moreover from ml have "0 \<le> m" by (meson order_trans zero_le_numeral zero_le_power)
  moreover from sq have "Suc q \<le> s" by simp
  then have "(2::rat) ^ Suc q \<le> 2 ^ s" by (rule power_increasing) simp
  ultimately have ms: "(2::rat) ^ (p - 1) * 2 ^ Suc q \<le> of_int m * 2 ^ s"
    by (intro mult_mono) simp_all
  from p have pq: "(2::rat) ^ (p - 1) * 2 ^ Suc q = 2 ^ p * 2 ^ q"
    by (cases p) simp_all
  from ms have "(2::rat) ^ p * 2 ^ q \<le> of_int m * 2 ^ s" unfolding pq .
  then have rl: "2 ^ p \<le> r'" by (simp add: r'_def field_simps)
  from res have "r = (if 0 < y then r' else - r')"
    unfolding roundBinary_def Let_def x_def [symmetric] n_def [symmetric] s_def [symmetric]
      m_def [symmetric] r'_def [symmetric] by (simp split: if_splits)
  with rl show ?thesis by (auto simp: abs_if)
qed


lemma round_half_even_tie: "even n \<Longrightarrow> round_half_even (of_int n + 1 / 2) = n"
proof -
  assume e: "even n"
  have f: "\<lfloor>(of_int n :: rat) + 1 / 2\<rfloor> = n" by (rule floor_unique) simp_all
  show ?thesis unfolding round_half_even_def Let_def f using e by simp
qed

lemma roundBinary_int:
  assumes n: "\<bar>n\<bar> < 2 ^ p" and pe: "p < emax"
  shows "roundBinary p q emax (of_int n) = Finite (of_int n)"
proof -
  define x where "x = \<bar>of_int n :: rat\<bar> * 2 ^ q"
  define s where "s = bitlen (nat \<lfloor>x\<rfloor>) - p"
  define m where "m = round_half_even (x / 2 ^ s)"
  define r where "r = (of_int m :: rat) * 2 ^ s / 2 ^ q"
  from n have "\<bar>of_int n :: rat\<bar> < 2 ^ p"
    by (metis of_int_abs of_int_less_iff of_int_numeral of_int_power)
  from shift_small [of "\<bar>of_int n\<bar>" p q] this have sq: "s \<le> q" by (simp add: s_def x_def)
  then have q: "q = s + (q - s)" by simp
  have "x = of_int (\<bar>n\<bar> * 2 ^ (q - s)) * 2 ^ s"
    unfolding x_def by (subst q) (simp add: power_add)
  then have xs: "x / 2 ^ s = of_int (\<bar>n\<bar> * 2 ^ (q - s))" by simp
  have "m = \<bar>n\<bar> * 2 ^ (q - s)" unfolding m_def xs by (rule round_half_even_int)
  then have "r = of_int \<bar>n\<bar> * (2 ^ (q - s) * 2 ^ s) / 2 ^ q" by (simp add: r_def)
  also have "(2::rat) ^ (q - s) * 2 ^ s = 2 ^ q" using sq by (simp add: power_add [symmetric])
  finally have r: "r = of_int \<bar>n\<bar>" by simp
  from pe have "(2::int) ^ p \<le> 2 ^ emax" by (intro power_increasing) simp_all
  with n have "\<bar>n\<bar> < 2 ^ emax" by linarith
  then have "(of_int \<bar>n\<bar> :: rat) < 2 ^ emax"
    by (metis of_int_less_iff of_int_numeral of_int_power)
  with r have fin: "\<not> 2 ^ emax \<le> r" by simp
  have "roundBinary p q emax (of_int n) = Finite (if 0 < (of_int n :: rat) then r else - r)"
    using fin unfolding roundBinary_def Let_def x_def [symmetric] s_def [symmetric]
      m_def [symmetric] r_def [symmetric] by simp
  with r show ?thesis by (simp add: abs_if)
qed

lemma roundBinary_limit:
  assumes c: "c = 0 \<or> c = 1" and p: "2 \<le> p" and pe: "p < emax"
  shows "roundBinary p q emax (2 ^ p + of_int c) = Finite (2 ^ p)"
proof -
  define y where "y = (2::rat) ^ p + of_int c"
  define x where "x = \<bar>y\<bar> * 2 ^ q"
  define s where "s = bitlen (nat \<lfloor>x\<rfloor>) - p"
  define m where "m = round_half_even (x / 2 ^ s)"
  define r where "r = (of_int m :: rat) * 2 ^ s / 2 ^ q"
  from c have ypos: "0 < y" unfolding y_def by (auto intro: add_pos_nonneg)
  have xi: "x = of_int ((2 ^ p + c) * 2 ^ q)" using ypos by (simp add: x_def y_def)
  have fl: "nat \<lfloor>x\<rfloor> = nat ((2 ^ p + c) * 2 ^ q)" unfolding xi by (simp only: floor_of_int)
  have lo: "2 ^ (p + q) \<le> nat ((2 ^ p + c) * 2 ^ q)"
  proof -
    from c have "(2::int) ^ p * 2 ^ q \<le> (2 ^ p + c) * 2 ^ q" by (intro mult_right_mono) auto
    then have "(2::int) ^ (p + q) \<le> (2 ^ p + c) * 2 ^ q" by (simp add: power_add)
    then show ?thesis by (simp add: le_nat_iff)
  qed
  have hi: "nat ((2 ^ p + c) * 2 ^ q) < 2 ^ Suc (p + q)"
  proof -
    from p have "(2::int) \<le> 2 ^ p" using power_increasing [of 1 p "2::int"] by simp
    with c have "(2 ^ p + c) < (2::int) * 2 ^ p" by auto
    then have "(2 ^ p + c) * 2 ^ q < (2::int) * 2 ^ p * 2 ^ q" by (intro mult_strict_right_mono) simp_all
    then have "(2 ^ p + c) * 2 ^ q < (2::int) ^ Suc (p + q)" by (simp add: power_add)
    moreover from c have "0 \<le> (2 ^ p + c) * (2::int) ^ q" by auto
    ultimately show ?thesis by (simp add: nat_less_iff)
  qed
  from bitlen_eq [OF lo hi] fl have s: "s = Suc q" by (simp add: s_def)
  from p obtain p' where p': "p = Suc p'" "0 < p'" by (cases p) auto
  have half: "x / 2 ^ s = of_int (2 ^ p') + of_int c / 2"
    unfolding xi s p'(1) by (simp add: field_simps)
  have m: "m = 2 ^ p'"
  proof (cases "c = 0")
    case True
    with half have "x / 2 ^ s = of_int (2 ^ p')" by simp
    then show ?thesis unfolding m_def by (simp only: round_half_even_int)
  next
    case False
    with c have "c = 1" by simp
    with half have "x / 2 ^ s = of_int (2 ^ p') + 1 / 2" by simp
    moreover from p'(2) have "even ((2::int) ^ p')" by simp
    ultimately show ?thesis unfolding m_def by (simp only: round_half_even_tie)
  qed
  have r: "r = 2 ^ p" unfolding r_def m s p'(1) by simp
  from pe have "(2::rat) ^ p < 2 ^ emax" by (intro power_strict_increasing) simp_all
  with r have fin: "\<not> 2 ^ emax \<le> r" by simp
  have "roundBinary p q emax y = Finite (if 0 < y then r else - r)"
    using fin unfolding roundBinary_def Let_def x_def [symmetric] s_def [symmetric]
      m_def [symmetric] r_def [symmetric] by simp
  with r ypos show ?thesis unfolding y_def by simp
qed

subsection \<open>Adding numbers\<close>

lemma Num_eq_iff [simp]: "Num a = Num b \<longleftrightarrow> a = b"
  by (simp add: Num_def)

lemma Num_is_finite [simp]:
  "Num a \<noteq> NaN" "Num a \<noteq> PosInfinity" "Num a \<noteq> NegInfinity"
  "NaN \<noteq> Num a" "PosInfinity \<noteq> Num a" "NegInfinity \<noteq> Num a"
  by (simp_all add: Num_def)

text \<open>Integers whose sum is below \<open>2^53\<close> in magnitude are added exactly.\<close>

lemma js_add_ints: "\<bar>a + b\<bar> < 2 ^ 53 \<Longrightarrow> js_add (Num a) (Num b) = Num (a + b)"
proof -
  assume "\<bar>a + b\<bar> < 2 ^ 53"
  then have "roundBinary 53 1074 1024 (of_int (a + b)) = Finite (of_int (a + b))"
    by (rule roundBinary_int) simp
  then show ?thesis by (simp add: Num_def roundDouble_def)
qed

text \<open>At \<open>2^53\<close> adding one stops: \<open>2^53 - 1\<close> steps to \<open>2^53\<close>, and \<open>2^53\<close> to itself.\<close>

lemma js_add_to_limit: "js_add (Num 9007199254740991) (Num 1) = Num 9007199254740992"
proof -
  have "roundBinary 53 1074 1024 (2 ^ 53 + of_int 0) = Finite (2 ^ 53)"
    by (rule roundBinary_limit) simp_all
  then show ?thesis by (simp add: Num_def roundDouble_def)
qed

lemma js_add_at_limit: "js_add (Num 9007199254740992) (Num 1) = Num 9007199254740992"
proof -
  have "roundBinary 53 1074 1024 (2 ^ 53 + of_int 1) = Finite (2 ^ 53)"
    by (rule roundBinary_limit) simp_all
  then show ?thesis by (simp add: Num_def roundDouble_def)
qed

text \<open>
  When adding one gives a finite value below \<open>2^53\<close> in magnitude, the value
  added to was finite and smaller.
\<close>

lemma js_add_one_finite:
  assumes r: "js_add c (Num 1) = Finite v" and v: "\<bar>v\<bar> < 2 ^ 53"
  shows "\<exists>x. c = Finite x \<and> x < v"
proof (cases c)
  case (Finite x)
  with r have rd: "roundBinary 53 1074 1024 (x + 1) = Finite v"
    by (simp add: Num_def roundDouble_def)
  have small: "\<bar>x + 1\<bar> < 2 ^ 53"
  proof (rule ccontr)
    assume "\<not> \<bar>x + 1\<bar> < 2 ^ 53"
    then have "2 ^ 53 \<le> \<bar>x + 1\<bar>" by simp
    from roundBinary_large [OF this _ rd] have "2 ^ 53 \<le> \<bar>v\<bar>" by simp
    with v show False by simp
  qed
  from roundBinary_near [OF small, of 1024 1074] rd
  have "\<bar>v - (x + 1)\<bar> \<le> 1 / 2" by auto
  then have "x < v" by linarith
  with Finite show ?thesis by simp
next
  case PosInfinity
  with r show ?thesis by (simp add: Num_def)
next
  case NegInfinity
  with r show ?thesis by (simp add: Num_def)
next
  case NaN
  with r show ?thesis by simp
qed

lemma Math_max_Num: "Math_max (Num a) (Num b) = Num (max a b)"
  by (simp add: Num_def max_def)

lemma js_strict_neq_Num: "js_strict_neq (Num a) (Num b) = (a \<noteq> b)"
  by (simp add: Num_def)

lemma js_less_Num: "js_less (Num a) (Num b) = (a < b)"
  by (simp add: Num_def)

section \<open>Properties of the Counter Store\<close>

text \<open>
  Claim C1, as the spec states it: after \<^verbatim>\<open>initialize()\<close> the seeded value is the
  maximum of the persisted checkpoint, the durable-store maximum and the
  current time. The code does not do that: with checkpoint 5, durable-store
  maximum 7 and current time 1000 it seeds 7, not 1000.
\<close>

theorem seed_is_not_max_of_three:
  "receivedAtCounter (snd (initializeMessageCounter (JNumber (Num 7)) 1000 checkpointState))
     \<noteq> Some (Num (max 5 (max 7 1000)))"
  by (simp add: initializeMessageCounter_def initializeBegin_def initializeResume_def
        checkpointState_def storedCounterOf_def Let_def Num_def)

text \<open>
  Claim C1, amended: with a persisted checkpoint in the local cache, a first
  \<^verbatim>\<open>initialize()\<close> succeeds and seeds the counter with the maximum of the
  checkpoint and the durable-store maximum when the durable store reports a
  number, and with the checkpoint when it reports none; the current time does
  not enter the result.
\<close>

theorem seed_is_max_of_checkpoint_and_store:
  "receivedAtCounter s = None \<Longrightarrow> lastReceivedAtCounter s = Some stored \<Longrightarrow>
   fst (initializeMessageCounter dbCounter now s) = Inr () \<and>
   receivedAtCounter (snd (initializeMessageCounter dbCounter now s)) =
     Some (case dbCounter of JNumber db \<Rightarrow> Math_max db stored | _ \<Rightarrow> stored)"
  by (cases dbCounter)
     (simp_all add: initializeMessageCounter_def initializeBegin_def initializeResume_def
        storedCounterOf_def Let_def)

theorem seed_is_max_of_checkpoint_and_store_witness:
  "receivedAtCounter checkpointState = None \<and>
   lastReceivedAtCounter checkpointState = Some (Num 5) \<and>
   receivedAtCounter (snd (initializeMessageCounter (JNumber (Num 7)) 1000 checkpointState)) =
     Some (Num 7) \<and>
   receivedAtCounter (snd (initializeMessageCounter (JNumber (Num 3)) 1000 checkpointState)) =
     Some (Num 5) \<and>
   receivedAtCounter (snd (initializeMessageCounter JUndefined 1000 checkpointState)) =
     Some (Num 5)"
  using seed_is_max_of_checkpoint_and_store [of checkpointState "Num 5" "JNumber (Num 7)" 1000]
        seed_is_max_of_checkpoint_and_store [of checkpointState "Num 5" "JNumber (Num 3)" 1000]
        seed_is_max_of_checkpoint_and_store [of checkpointState "Num 5" JUndefined 1000]
  by (simp add: checkpointState_def Num_def)


subsection \<open>What a run of calls returns\<close>

lemma increment_initialized:
  "receivedAtCounter s = Some c \<Longrightarrow>
   fst (incrementMessageCounter s) = Inr (js_add c (Num 1)) \<and>
   receivedAtCounter (snd (incrementMessageCounter s)) = Some (js_add c (Num 1))"
  by (simp add: incrementMessageCounter_def)

lemma step_increment_initialized:
  "receivedAtCounter (moduleState p) = Some c \<Longrightarrow>
   snd (step CallIncrement p) = p\<lparr>moduleState := snd (incrementMessageCounter (moduleState p))\<rparr>"
  by (simp add: incrementMessageCounter_def)

lemma flush_keeps_counter:
  "receivedAtCounter (flushMessageCounter s) = receivedAtCounter s"
  by (simp add: flushMessageCounter_def)

text \<open>
  With the counter initialised and no call suspended, a further call of
  \<^verbatim>\<open>initializeMessageCounter()\<close> throws and the store has nobody to resume:
  neither changes the process.
\<close>

lemma initialize_rejected:
  "receivedAtCounter (moduleState p) = Some c \<Longrightarrow> snd (step CallInitialize p) = p"
  by (simp add: initializeBegin_def)

lemma nobody_to_resume:
  "suspended p = [] \<Longrightarrow> snd (step (StoreResolves k dbCounter now) p) = p"
  by simp

lemma js_less_trans: "js_less (Finite x) (Finite v) \<Longrightarrow> js_less (Finite v) w \<Longrightarrow> js_less (Finite x) w"
  by (cases w) simp_all

lemma returned_increasing:
  assumes "receivedAtCounter (moduleState p) = Some c" and "suspended p = []"
    and "\<forall>r \<in> set (returned events p). safelyReturned r"
  shows "sorted_wrt result_less (returned events p) \<and>
         (\<forall>r \<in> set (returned events p). result_less (Inr c) r)"
  using assms
proof (induction events arbitrary: p c)
  case Nil
  then show ?case by simp
next
  case (Cons e events)
  show ?case
  proof (cases e)
    case CallInitialize
    from Cons.prems(1) have same: "snd (step CallInitialize p) = p" by (rule initialize_rejected)
    with Cons.prems(3) CallInitialize have "\<forall>r \<in> set (returned events p). safelyReturned r"
      by simp
    from Cons.IH [OF Cons.prems(1,2) this] CallInitialize same show ?thesis by simp
  next
    case (StoreResolves k dbCounter now)
    from Cons.prems(2) have same: "snd (step (StoreResolves k dbCounter now) p) = p"
      by (rule nobody_to_resume)
    with Cons.prems(3) StoreResolves have "\<forall>r \<in> set (returned events p). safelyReturned r"
      by simp
    from Cons.IH [OF Cons.prems(1,2) this] StoreResolves same show ?thesis by simp
  next
    case WriterRuns
    let ?p' = "snd (step WriterRuns p)"
    from Cons.prems(1) have c': "receivedAtCounter (moduleState ?p') = Some c"
      by (simp add: flush_keeps_counter)
    from Cons.prems(2) have s': "suspended ?p' = []" by simp
    from Cons.prems(3) WriterRuns have "\<forall>r \<in> set (returned events ?p'). safelyReturned r"
      by simp
    from Cons.IH [OF c' s' this] WriterRuns show ?thesis by simp
  next
    case CallIncrement
    let ?p' = "snd (step CallIncrement p)"
    let ?v = "js_add c (Num 1)"
    from increment_initialized [OF Cons.prems(1)]
    have hd: "fst (incrementMessageCounter (moduleState p)) = Inr ?v"
      and st: "receivedAtCounter (snd (incrementMessageCounter (moduleState p))) = Some ?v"
      by blast+
    from step_increment_initialized [OF Cons.prems(1)] st Cons.prems(2)
    have c': "receivedAtCounter (moduleState ?p') = Some ?v" and s': "suspended ?p' = []"
      by simp_all
    from Cons.prems(3) CallIncrement hd have safe: "safelyReturned (Inr ?v)"
      and rest: "\<forall>r \<in> set (returned events ?p'). safelyReturned r" by simp_all
    from safe obtain v where v: "?v = Finite v" "\<bar>v\<bar> < 2 ^ 53"
      by (cases ?v) simp_all
    from js_add_one_finite [OF v] obtain x where x: "c = Finite x" "x < v" by blast
    from Cons.IH [OF c' s' rest]
    have srt: "sorted_wrt result_less (returned events ?p')"
      and abv: "\<forall>r \<in> set (returned events ?p'). result_less (Inr ?v) r" by blast+
    have "\<forall>r \<in> set (returned events ?p'). result_less (Inr c) r"
    proof
      fix r assume "r \<in> set (returned events ?p')"
      with abv v(1) have "result_less (Inr (Finite v)) r" by simp
      then obtain w where w: "r = Inr w" "js_less (Finite v) w"
        by (cases r) simp_all
      from x(2) have "js_less (Finite x) (Finite v)" by simp
      from js_less_trans [OF this w(2)] w(1) x(1) show "result_less (Inr c) r" by simp
    qed
    moreover from x v(1) have "result_less (Inr c) (Inr ?v)" by simp
    ultimately show ?thesis using CallIncrement hd srt abv by simp
  qed
qed

text \<open>
  Claim C2, as the spec states it: after initialisation the values that the
  calls of \<^verbatim>\<open>incrementMessageCounter()\<close> return are strictly increasing. Three
  runs of the code where they are not. A checkpoint that reads as NaN seeds
  NaN, and the calls return NaN and NaN. A counter seeded with \<open>2^53 - 1\<close>
  returns \<open>2^53\<close> and then \<open>2^53\<close> again, the sum being rounded to a double.
  And when a second \<^verbatim>\<open>initializeMessageCounter()\<close> was called while the first
  awaited the store, the calls return 8 and 9, the store resolves for the
  second call, which seeds the counter again, and the next call returns 8.
\<close>

theorem increments_not_always_increasing:
  "\<not> strictlyIncreasing
       (returned [CallIncrement, CallIncrement]
          \<lparr>moduleState = snd (initializeMessageCounter (JNumber (Num 7)) 1000 nanCheckpointState),
            suspended = []\<rparr>) \<and>
   \<not> strictlyIncreasing
       (returned [CallIncrement, CallIncrement]
          \<lparr>moduleState = snd (initializeMessageCounter JUndefined 1000 limitCheckpointState),
            suspended = []\<rparr>) \<and>
   returned [CallIncrement, CallIncrement, StoreResolves 0 (JNumber (Num 7)) 2000, CallIncrement]
     (runEvents overlappingCalls freshProcess) = [Inr (Num 8), Inr (Num 9), Inr (Num 8)] \<and>
   \<not> strictlyIncreasing
       (returned
          [CallIncrement, CallIncrement, StoreResolves 0 (JNumber (Num 7)) 2000, CallIncrement]
          (runEvents overlappingCalls freshProcess))"
proof -
  have a: "returned [CallIncrement, CallIncrement]
          \<lparr>moduleState = snd (initializeMessageCounter (JNumber (Num 7)) 1000 nanCheckpointState),
            suspended = []\<rparr> = [Inr NaN, Inr NaN]"
    by (simp add: initializeMessageCounter_def initializeBegin_def initializeResume_def
          nanCheckpointState_def storedCounterOf_def incrementMessageCounter_def Let_def Num_def)
  have b: "returned [CallIncrement, CallIncrement]
          \<lparr>moduleState = snd (initializeMessageCounter JUndefined 1000 limitCheckpointState),
            suspended = []\<rparr> = [Inr (Num 9007199254740992), Inr (Num 9007199254740992)]"
    by (simp add: initializeMessageCounter_def initializeBegin_def initializeResume_def
          limitCheckpointState_def storedCounterOf_def incrementMessageCounter_def Let_def
          js_add_to_limit js_add_at_limit)
  have c: "returned
          [CallIncrement, CallIncrement, StoreResolves 0 (JNumber (Num 7)) 2000, CallIncrement]
          (runEvents overlappingCalls freshProcess) = [Inr (Num 8), Inr (Num 9), Inr (Num 8)]"
    by (simp add: overlappingCalls_def freshProcess_def freshState_def initializeBegin_def
          initializeResume_def storedCounterOf_def incrementMessageCounter_def Let_def
          js_add_ints Math_max_Num js_strict_neq_Num)
  show ?thesis unfolding a b c by (simp add: strictlyIncreasing_def Num_def)
qed

text \<open>
  Claim C2, amended: in a process run in which the counter is initialised and
  no call of \<^verbatim>\<open>initializeMessageCounter()\<close> is suspended at its \<^verbatim>\<open>await\<close>, the
  values that the calls of \<^verbatim>\<open>incrementMessageCounter()\<close> return are strictly
  increasing as long as they are finite numbers of magnitude below \<open>2^53\<close>,
  whatever runs of the debounced writer and further (rejected) calls of
  \<^verbatim>\<open>initializeMessageCounter()\<close> come between them.
\<close>

theorem increments_strictly_increasing:
  assumes "receivedAtCounter (moduleState p) \<noteq> None" and "suspended p = []"
    and "\<forall>r \<in> set (returned events p). safelyReturned r"
  shows "strictlyIncreasing (returned events p)"
proof -
  from assms(1) obtain c where "receivedAtCounter (moduleState p) = Some c" by blast
  from returned_increasing [OF this assms(2,3)] show ?thesis
    by (simp add: strictlyIncreasing_def)
qed

theorem increments_strictly_increasing_witness:
  "receivedAtCounter (moduleState seededProcess) \<noteq> None \<and> suspended seededProcess = [] \<and>
   returned [CallIncrement, WriterRuns, CallInitialize, CallIncrement,
             StoreResolves 0 (JNumber (Num 3)) 2000, CallIncrement] seededProcess =
     [Inr (Num 11), Inr (Num 12), Inr (Num 13)] \<and>
   safelyReturned (Inr (Num 11)) \<and> safelyReturned (Inr (Num 12)) \<and>
   safelyReturned (Inr (Num 13)) \<and>
   strictlyIncreasing
     (returned [CallIncrement, WriterRuns, CallInitialize, CallIncrement,
                StoreResolves 0 (JNumber (Num 3)) 2000, CallIncrement] seededProcess)"
proof -
  have i: "receivedAtCounter (moduleState seededProcess) \<noteq> None"
    by (simp add: seededProcess_def seededState_def)
  have s: "suspended seededProcess = []" by (simp add: seededProcess_def)
  have r: "returned [CallIncrement, WriterRuns, CallInitialize, CallIncrement,
             StoreResolves 0 (JNumber (Num 3)) 2000, CallIncrement] seededProcess =
     [Inr (Num 11), Inr (Num 12), Inr (Num 13)]"
    by (simp add: seededProcess_def seededState_def incrementMessageCounter_def
          flushMessageCounter_def initializeBegin_def js_add_ints)
  have f: "safelyReturned (Inr (Num 11))" "safelyReturned (Inr (Num 12))"
    "safelyReturned (Inr (Num 13))"
    by (simp_all add: Num_def)
  from f have "\<forall>r \<in> set (returned [CallIncrement, WriterRuns, CallInitialize, CallIncrement,
             StoreResolves 0 (JNumber (Num 3)) 2000, CallIncrement] seededProcess).
       safelyReturned r" unfolding r by simp
  from increments_strictly_increasing [OF i s this] i s r f show ?thesis by simp
qed

subsection \<open>Misuse of the lifecycle\<close>

text \<open>
  A call of \<^verbatim>\<open>initializeMessageCounter()\<close> made when the counter is set throws
  ``already initialized'', so a call made after another has run to its end
  does; a call of \<^verbatim>\<open>incrementMessageCounter()\<close> made while the counter is
  \<^verbatim>\<open>undefined\<close> throws ``not initialized''. Both leave the state as it is.
\<close>

lemma sequential_misuse_fails:
  "(receivedAtCounter s \<noteq> None \<longrightarrow>
      initializeMessageCounter dbCounter now s =
        (Inl (StrictAssertionError ''incrementMessageCounter: already initialized''), s)) \<and>
   (receivedAtCounter s = None \<longrightarrow>
      fst (initializeMessageCounter dbCounter now s) = Inr () \<and>
      initializeMessageCounter dbCounter' now' (snd (initializeMessageCounter dbCounter now s)) =
        (Inl (StrictAssertionError ''incrementMessageCounter: already initialized''),
         snd (initializeMessageCounter dbCounter now s))) \<and>
   (receivedAtCounter s = None \<longrightarrow>
      incrementMessageCounter s =
        (Inl (StrictAssertionError ''incrementMessageCounter: not initialized''), s))"
  by (simp add: initializeMessageCounter_def initializeBegin_def initializeResume_def
        incrementMessageCounter_def Let_def)

text \<open>
  Claim C9 says that a second call of \<^verbatim>\<open>initialize()\<close> in one process lifetime
  fails with ``already initialized''. The code's assertion is made before the
  \<^verbatim>\<open>await\<close> and the counter is set after it, so a second call that starts
  while the first awaits the store passes the assertion: neither call throws,
  both run to their end, and the second seeds the counter again (here with 3,
  after the first seeded it with 7).
\<close>

theorem overlapping_initialize_is_not_rejected:
  "outcomes [CallInitialize, CallInitialize, StoreResolves 0 (JNumber (Num 7)) 1000,
             StoreResolves 0 (JNumber (Num 3)) 2000] freshProcess =
     [Suspended, Suspended, Resumed, Resumed] \<and>
   receivedAtCounter (moduleState (runEvents overlappingCalls freshProcess)) = Some (Num 7) \<and>
   receivedAtCounter
     (moduleState (runEvents (overlappingCalls @ [StoreResolves 0 (JNumber (Num 3)) 2000])
        freshProcess)) = Some (Num 3)"
  by (simp add: overlappingCalls_def freshProcess_def freshState_def initializeBegin_def
        initializeResume_def storedCounterOf_def Let_def Num_def max_def)


text \<open>
  Claim C10: when the local cache holds no stored value and the durable store
  reports no number, the counter is seeded with 0 whatever the current time
  is, through the ``picking stored counter'' branch. The
  ``defaulting to Date.now()'' branch of the choice is taken exactly when
  neither the durable-store value nor the stored value passes
  \<^verbatim>\<open>isNumber\<close>, which the stored value, being a \<^verbatim>\<open>Number(...)\<close>, always does:
  no run of \<^verbatim>\<open>initializeMessageCounter\<close> logs that branch.
\<close>

theorem empty_cache_seeds_zero:
  "(receivedAtCounter s = None \<and> lastReceivedAtCounter s = None \<and> \<not> isNumber dbCounter \<longrightarrow>
      receivedAtCounter (snd (initializeMessageCounter dbCounter now s)) = Some (Num 0) \<and>
      log (snd (initializeMessageCounter dbCounter now s)) =
        log s @ [LogInfo ''initializeMessageCounter: picking stored counter'']) \<and>
   (fst (pickCounter dbValue storedValue nowValue) =
        [LogInfo ''initializeMessageCounter: defaulting to Date.now()'']
      \<longleftrightarrow> \<not> isNumber dbValue \<and> \<not> isNumber storedValue) \<and>
   (receivedAtCounter s = None \<longrightarrow>
      LogInfo ''initializeMessageCounter: defaulting to Date.now()''
        \<notin> set (fst (pickCounter dbCounter (JNumber (storedCounterOf s)) (Num now))))"
  by (cases dbCounter; cases dbValue; cases storedValue)
     (simp_all add: initializeMessageCounter_def initializeBegin_def initializeResume_def
        storedCounterOf_def Let_def)

theorem empty_cache_seeds_zero_witness:
  "receivedAtCounter freshState = None \<and> lastReceivedAtCounter freshState = None \<and>
   \<not> isNumber JUndefined \<and>
   receivedAtCounter (snd (initializeMessageCounter JUndefined 1000 freshState)) = Some (Num 0) \<and>
   fst (pickCounter JUndefined JNull (Num 1000)) =
     [LogInfo ''initializeMessageCounter: defaulting to Date.now()''] \<and>
   fst (pickCounter JUndefined (JNumber (Num 0)) (Num 1000)) \<noteq>
     [LogInfo ''initializeMessageCounter: defaulting to Date.now()'']"
  using empty_cache_seeds_zero [of freshState JUndefined 1000 JUndefined JNull "Num 1000"]
        empty_cache_seeds_zero [of freshState JUndefined 1000 JUndefined "JNumber (Num 0)" "Num 1000"]
  by (simp add: freshState_def)


section \<open>Properties of the directory and the merge\<close>

subsection \<open>Finding the first match\<close>

lemma findIndex_Some:
  "findIndex P xs = Some i \<Longrightarrow> i < length xs \<and> P (xs ! i) \<and> (\<forall>k < i. \<not> P (xs ! k))"
proof (induction xs arbitrary: i)
  case Nil
  then show ?case by simp
next
  case (Cons x xs)
  show ?case
  proof (cases "P x")
    case True
    with Cons.prems show ?thesis by simp
  next
    case False
    with Cons.prems obtain i' where i': "findIndex P xs = Some i'" "i = Suc i'"
      by auto
    from Cons.IH [OF i'(1)] False i'(2) show ?thesis
      by (auto simp: nth_Cons split: nat.splits)
  qed
qed

lemma findIndex_None:
  "findIndex P xs = None \<Longrightarrow> \<forall>x \<in> set xs. \<not> P x"
  by (induction xs) (auto split: if_splits)

lemma findIndex_first:
  "i < length xs \<Longrightarrow> P (xs ! i) \<Longrightarrow> (\<forall>k < i. \<not> P (xs ! k)) \<Longrightarrow> findIndex P xs = Some i"
proof (induction xs arbitrary: i)
  case Nil
  then show ?case by simp
next
  case (Cons x xs)
  show ?case
  proof (cases i)
    case 0
    with Cons.prems show ?thesis by simp
  next
    case (Suc i')
    with Cons.prems have "\<not> P x" by auto
    moreover from Suc Cons.prems have "findIndex P xs = Some i'"
      by (intro Cons.IH) auto
    ultimately show ?thesis using Suc by simp
  qed
qed

subsection \<open>Uniqueness on the list of field values\<close>

lemma uniqueVals_iff:
  "uniqueVals vs \<longleftrightarrow>
     (\<forall>i < length vs. \<forall>j < length vs. i \<noteq> j \<longrightarrow> truthy (vs ! i) \<longrightarrow> vs ! i \<noteq> vs ! j)"
  by (auto simp: uniqueVals_def)

lemma truthy_not_None: "truthy x \<Longrightarrow> x \<noteq> None"
  by (cases x) auto

lemma uniqueVals_unset:
  assumes "uniqueVals vs"
  shows "uniqueVals (vs[i := None])"
  unfolding uniqueVals_iff
proof (intro allI impI)
  fix a b
  assume a: "a < length (vs[i := None])" and b: "b < length (vs[i := None])"
    and ab: "a \<noteq> b" and t: "truthy (vs[i := None] ! a)"
  from a t have ai: "a \<noteq> i" by (auto simp: nth_list_update)
  with t have ta: "truthy (vs ! a)" by simp
  show "vs[i := None] ! a \<noteq> vs[i := None] ! b"
  proof (cases "b = i")
    case True
    with b ai truthy_not_None [OF ta] show ?thesis by (auto simp: nth_list_update)
  next
    case False
    with assms a b ab ai ta show ?thesis by (simp add: uniqueVals_iff)
  qed
qed

lemma uniqueVals_set:
  assumes "uniqueVals vs" and "\<forall>k < length vs. k \<noteq> i \<longrightarrow> vs ! k \<noteq> Some v"
  shows "uniqueVals (vs[i := Some v])"
  unfolding uniqueVals_iff
proof (intro allI impI)
  fix a b
  assume a: "a < length (vs[i := Some v])" and b: "b < length (vs[i := Some v])"
    and ab: "a \<noteq> b" and t: "truthy (vs[i := Some v] ! a)"
  show "vs[i := Some v] ! a \<noteq> vs[i := Some v] ! b"
  proof (cases "a = i")
    case True
    with a b ab assms(2) show ?thesis by (auto simp: nth_list_update)
  next
    case ai: False
    show ?thesis
    proof (cases "b = i")
      case True
      with a b ai assms(2) show ?thesis by (auto simp: nth_list_update)
    next
      case False
      with assms(1) a b ab ai t show ?thesis by (simp add: uniqueVals_iff)
    qed
  qed
qed

lemma uniqueVals_holder:
  assumes "uniqueVals vs" "i < length vs" "vs ! i = Some v" "v \<noteq> []"
    "k < length vs" "k \<noteq> i"
  shows "vs ! k \<noteq> Some v"
proof -
  from assms(3,4) have "truthy (vs ! i)" by simp
  with assms(1,2,5,6) have "vs ! i \<noteq> vs ! k" by (auto simp: uniqueVals_iff)
  with assms(3) show ?thesis by simp
qed


subsection \<open>The three outcomes of a merge\<close>

lemma merge_outcomes:
  obtains
    (unchanged) "snd (maybeMergeContacts eo uo r cs) = cs"
  | (moved) p u i j where
      "eo = Some p" "uo = Some u" "p \<noteq> []"
      "FCC_get cs p = Some i" "FCC_get cs (toLowerCase u) = Some j" "i \<noteq> j"
      "maybeMergeContacts eo uo r cs =
         (Inr j, cs[i := unsetE164 (cs ! i), j := updateE164 p (cs ! j)])"
      "u \<noteq> []" "truthy r"
  | (attached) p u i where
      "eo = Some p" "uo = Some u" "p \<noteq> []"
      "FCC_get cs p = Some i" "FCC_get cs (toLowerCase u) = None"
      "maybeMergeContacts eo uo r cs = (Inr i, cs[i := updateUuid (toLowerCase u) (cs ! i)])"
      "u \<noteq> []" "truthy r"
proof (cases eo)
  case None
  then show ?thesis using unchanged by simp
next
  case (Some p)
  note eo = this
  show ?thesis
  proof (cases uo)
    case None
    with eo show ?thesis using unchanged by simp
  next
    case (Some u)
    note uo = this
    show ?thesis
    proof (cases "p = [] \<or> u = [] \<or> \<not> truthy r")
      case True
      with eo uo show ?thesis using unchanged by auto
    next
      case ok: False
      show ?thesis
      proof (cases "FCC_get cs p")
        case None
        with eo uo ok show ?thesis using unchanged
          by (cases "FCC_get cs (toLowerCase u)") (simp_all add: Let_def)
      next
        case (Some i)
        note gi = this
        show ?thesis
        proof (cases "FCC_get cs (toLowerCase u)")
          case None
          with eo uo ok gi show ?thesis using attached [of p u i]
            by (simp add: Let_def)
        next
          case (Some j)
          show ?thesis
          proof (cases "i = j")
            case True
            with eo uo ok gi Some show ?thesis using unchanged by (simp add: Let_def)
          next
            case False
            with eo uo ok gi Some show ?thesis using moved [of p u i j]
              by (simp add: Let_def)
          qed
        qed
      qed
    qed
  qed
qed

lemma FCC_get_Some:
  "FCC_get cs key = Some i \<Longrightarrow>
   i < length cs \<and> matchesKey key (cs ! i) \<and> (\<forall>k < i. \<not> matchesKey key (cs ! k))"
  unfolding FCC_get_def by (rule findIndex_Some)

lemma FCC_get_None: "FCC_get cs key = None \<Longrightarrow> \<forall>c \<in> set cs. \<not> matchesKey key c"
  unfolding FCC_get_def by (rule findIndex_None)

lemma FCC_get_first:
  "i < length cs \<Longrightarrow> matchesKey key (cs ! i) \<Longrightarrow> (\<forall>k < i. \<not> matchesKey key (cs ! k)) \<Longrightarrow>
   FCC_get cs key = Some i"
  unfolding FCC_get_def by (rule findIndex_first)

lemma holder_of_phone:
  assumes "FCC_get cs p = Some i" "notAnIdentifier p cs"
  shows "i < length cs \<and> e164 (cs ! i) = Some p"
proof -
  from FCC_get_Some [OF assms(1)] have i: "i < length cs" and m: "matchesKey p (cs ! i)"
    by blast+
  from i have "cs ! i \<in> set cs" by simp
  with assms(2) have "conversationId (cs ! i) \<noteq> p \<and> uuid (cs ! i) \<noteq> Some p"
    by (simp add: notAnIdentifier_def)
  with m i show ?thesis by (simp add: matchesKey_def)
qed

subsection \<open>Uniqueness is kept by one merge\<close>

lemma map_update_same: "f x = f (cs ! i) \<Longrightarrow> map f (cs[i := x]) = map f cs"
  by (metis list_update_id map_update)

lemma merge_keeps_uniqueness:
  assumes u: "uniqueness cs"
    and ns: "\<forall>p. eo = Some p \<longrightarrow> notAnIdentifier p cs"
  shows "uniqueness (snd (maybeMergeContacts eo uo r cs))"
proof (cases eo uo r cs rule: merge_outcomes)
  case unchanged
  with u show ?thesis by simp
next
  case (moved p u' i j)
  from moved(1) ns have nid: "notAnIdentifier p cs" by simp
  from holder_of_phone [OF moved(4) nid] have i: "i < length cs" and hi: "e164 (cs ! i) = Some p"
    by blast+
  from FCC_get_Some [OF moved(5)] have j: "j < length cs" by blast
  let ?cs' = "cs[i := unsetE164 (cs ! i), j := updateE164 p (cs ! j)]"
  have "map uuid (cs[i := unsetE164 (cs ! i)]) = map uuid cs"
    by (rule map_update_same) (simp add: unsetE164_def)
  moreover from moved(6) have "uuid (updateE164 p (cs ! j)) = uuid (cs[i := unsetE164 (cs ! i)] ! j)"
    by (simp add: updateE164_def)
  ultimately have mu: "map uuid ?cs' = map uuid cs"
    by (simp add: map_update_same)
  have me: "map e164 ?cs' = (map e164 cs)[i := None, j := Some p]"
    by (simp add: map_update unsetE164_def updateE164_def)
  from u have ue: "uniqueVals (map e164 cs)" and uu: "uniqueVals (map uuid cs)"
    by (simp_all add: uniqueness_def uniqueBy_def)
  have "\<forall>k < length ((map e164 cs)[i := None]). k \<noteq> j \<longrightarrow> (map e164 cs)[i := None] ! k \<noteq> Some p"
  proof (intro allI impI)
    fix k assume k: "k < length ((map e164 cs)[i := None])" and kj: "k \<noteq> j"
    show "(map e164 cs)[i := None] ! k \<noteq> Some p"
    proof (cases "k = i")
      case True
      with k show ?thesis by simp
    next
      case False
      with uniqueVals_holder [OF ue, of i p k] i hi moved(3) k show ?thesis by simp
    qed
  qed
  with uniqueVals_unset [OF ue, of i] have "uniqueVals ((map e164 cs)[i := None, j := Some p])"
    by (rule uniqueVals_set)
  with me mu uu moved(7) show ?thesis
    by (simp add: uniqueness_def uniqueBy_def)
next
  case (attached p u' i)
  from FCC_get_Some [OF attached(4)] have i: "i < length cs" by blast
  let ?u = "toLowerCase u'"
  let ?cs' = "cs[i := updateUuid ?u (cs ! i)]"
  have me: "map e164 ?cs' = map e164 cs"
    by (rule map_update_same) (simp add: updateUuid_def)
  have mu: "map uuid ?cs' = (map uuid cs)[i := Some ?u]"
    by (simp add: map_update updateUuid_def)
  from u have ue: "uniqueVals (map e164 cs)" and uu: "uniqueVals (map uuid cs)"
    by (simp_all add: uniqueness_def uniqueBy_def)
  have "\<forall>k < length (map uuid cs). k \<noteq> i \<longrightarrow> map uuid cs ! k \<noteq> Some ?u"
  proof (intro allI impI)
    fix k assume k: "k < length (map uuid cs)" and "k \<noteq> i"
    then have "cs ! k \<in> set cs" by simp
    with FCC_get_None [OF attached(5)] have "\<not> matchesKey ?u (cs ! k)" by blast
    with k show "map uuid cs ! k \<noteq> Some ?u" by (simp add: matchesKey_def)
  qed
  with uu have "uniqueVals ((map uuid cs)[i := Some ?u])" by (rule uniqueVals_set)
  with me mu ue attached(6) show ?thesis
    by (simp add: uniqueness_def uniqueBy_def)
qed


subsection \<open>The namespaces stay apart\<close>

lemma in_set_update: "c \<in> set (xs[i := x]) \<Longrightarrow> c = x \<or> c \<in> set xs"
  using set_update_subset_insert [of xs i x] by auto

lemma merge_keeps_notAnIdentifier:
  assumes "notAnIdentifier q cs" and "\<forall>u. uo = Some u \<longrightarrow> q \<noteq> toLowerCase u"
  shows "notAnIdentifier q (snd (maybeMergeContacts eo uo r cs))"
proof (cases eo uo r cs rule: merge_outcomes)
  case unchanged
  with assms(1) show ?thesis by simp
next
  case (moved p u i j)
  have "\<forall>c \<in> set (cs[i := unsetE164 (cs ! i), j := updateE164 p (cs ! j)]).
          conversationId c \<noteq> q \<and> uuid c \<noteq> Some q"
  proof
    fix c assume "c \<in> set (cs[i := unsetE164 (cs ! i), j := updateE164 p (cs ! j)])"
    then have "c = updateE164 p (cs ! j) \<or> c = unsetE164 (cs ! i) \<or> c \<in> set cs"
      by (auto dest!: in_set_update)
    moreover from FCC_get_Some [OF moved(4)] FCC_get_Some [OF moved(5)]
    have "cs ! i \<in> set cs" "cs ! j \<in> set cs" by simp_all
    ultimately show "conversationId c \<noteq> q \<and> uuid c \<noteq> Some q"
      using assms(1) by (auto simp: notAnIdentifier_def updateE164_def unsetE164_def)
  qed
  with moved(7) show ?thesis by (simp add: notAnIdentifier_def)
next
  case (attached p u i)
  from attached(2) assms(2) have qu: "q \<noteq> toLowerCase u" by simp
  have "\<forall>c \<in> set (cs[i := updateUuid (toLowerCase u) (cs ! i)]).
          conversationId c \<noteq> q \<and> uuid c \<noteq> Some q"
  proof
    fix c assume "c \<in> set (cs[i := updateUuid (toLowerCase u) (cs ! i)])"
    then have "c = updateUuid (toLowerCase u) (cs ! i) \<or> c \<in> set cs"
      by (rule in_set_update)
    moreover from FCC_get_Some [OF attached(4)] have "cs ! i \<in> set cs" by simp
    ultimately show "conversationId c \<noteq> q \<and> uuid c \<noteq> Some q"
      using assms(1) qu by (auto simp: notAnIdentifier_def updateUuid_def)
  qed
  with attached(6) show ?thesis by (simp add: notAnIdentifier_def)
qed

lemma namespacesDisjoint_head:
  "namespacesDisjoint (ob # obs) cs \<Longrightarrow> \<forall>p. fst ob = Some p \<longrightarrow> notAnIdentifier p cs"
  by (auto simp: namespacesDisjoint_def phonesOf_def)

lemma namespacesDisjoint_tail:
  assumes "namespacesDisjoint (ob # obs) cs"
  shows "namespacesDisjoint obs (mergeObservation ob cs)"
  unfolding namespacesDisjoint_def
proof (intro ballI conjI)
  fix q assume q: "q \<in> set (phonesOf obs)"
  then have q': "q \<in> set (phonesOf (ob # obs))" by (simp add: phonesOf_def)
  with assms have nid: "notAnIdentifier q cs" and nin: "q \<notin> set (identifiersOf (ob # obs))"
    by (simp_all add: namespacesDisjoint_def)
  from nin show "q \<notin> set (identifiersOf obs)" by (simp add: identifiersOf_def)
  from nin have "\<forall>u. fst (snd ob) = Some u \<longrightarrow> q \<noteq> toLowerCase u"
    by (auto simp: identifiersOf_def)
  with nid show "notAnIdentifier q (mergeObservation ob cs)"
    unfolding mergeObservation_def by (rule merge_keeps_notAnIdentifier)
qed

text \<open>
  Claim C3: starting from a directory that satisfies uniqueness, after any
  sequence of merges no two distinct records hold the same non-empty phone
  number and no two distinct records hold the same non-empty account
  identifier. Phone numbers and identifiers are taken from their own
  namespaces, as the data model has them (an E.164 number is never a local
  id or an account identifier).
\<close>

theorem merges_keep_uniqueness:
  "uniqueness cs \<Longrightarrow> namespacesDisjoint obs cs \<Longrightarrow> uniqueness (mergeAll obs cs)"
proof (induction obs arbitrary: cs)
  case Nil
  then show ?case by simp
next
  case (Cons ob obs)
  from Cons.prems(1) namespacesDisjoint_head [OF Cons.prems(2)]
  have "uniqueness (mergeObservation ob cs)"
    unfolding mergeObservation_def by (rule merge_keeps_uniqueness)
  moreover from Cons.prems(2) have "namespacesDisjoint obs (mergeObservation ob cs)"
    by (rule namespacesDisjoint_tail)
  ultimately have "uniqueness (mergeAll obs (mergeObservation ob cs))"
    by (rule Cons.IH)
  then show ?case by simp
qed

theorem merges_keep_uniqueness_witness:
  "uniqueness directoryAB \<and> namespacesDisjoint [observationAB] directoryAB \<and>
   uniqueness (mergeAll [observationAB] directoryAB) \<and>
   mergeAll [observationAB] directoryAB =
     [recordA\<lparr>e164 := None\<rparr>, recordB\<lparr>e164 := Some ''+13215559876''\<rparr>]"
proof -
  have u: "uniqueness directoryAB"
    by (simp add: uniqueness_def uniqueBy_def uniqueVals_def directoryAB_def recordA_def
          recordB_def lessThan_Suc)
  have n: "namespacesDisjoint [observationAB] directoryAB"
    by (simp add: namespacesDisjoint_def phonesOf_def identifiersOf_def observationAB_def
          notAnIdentifier_def directoryAB_def recordA_def recordB_def toLowerCase_def
          lowerChar_def)
  have m: "mergeAll [observationAB] directoryAB =
     [recordA\<lparr>e164 := None\<rparr>, recordB\<lparr>e164 := Some ''+13215559876''\<rparr>]"
    by (simp add: mergeObservation_def observationAB_def directoryAB_def recordA_def
          recordB_def FCC_get_def matchesKey_def toLowerCase_def lowerChar_def Let_def
          unsetE164_def updateE164_def)
  from merges_keep_uniqueness [OF u n] u n m show ?thesis by simp
qed


subsection \<open>A second merge changes nothing\<close>

lemma second_merge_is_noop:
  assumes gp: "FCC_get cs' p = Some k" and gu: "FCC_get cs' (toLowerCase u) = Some k"
    and ok: "p \<noteq> []" "u \<noteq> []" "truthy r"
  shows "maybeMergeContacts (Some p) (Some u) r cs' = (Inr k, cs')"
  using assms by (simp add: Let_def)

text \<open>
  Claim C5: merging is idempotent. For a directory that satisfies uniqueness
  and an observation whose phone number is no record's id or account
  identifier and whose account identifier is no record's phone number,
  applying the observation twice leaves exactly the directory that applying
  it once leaves.
\<close>

theorem merge_idempotent:
  assumes un: "uniqueness cs"
    and np: "\<forall>p. fst ob = Some p \<longrightarrow> notAnIdentifier p cs"
    and nu: "\<forall>u. fst (snd ob) = Some u \<longrightarrow> notAPhoneNumber (toLowerCase u) cs"
  shows "mergeObservation ob (mergeObservation ob cs) = mergeObservation ob cs"
proof (cases "fst ob" "fst (snd ob)" "snd (snd ob)" cs rule: merge_outcomes)
  case unchanged
  then show ?thesis by (simp add: mergeObservation_def)
next
  case (moved p u i j)
  let ?u = "toLowerCase u"
  let ?cs' = "cs[i := unsetE164 (cs ! i), j := updateE164 p (cs ! j)]"
  from moved(1) np have nid: "notAnIdentifier p cs" by simp
  from moved(2) nu have nph: "notAPhoneNumber ?u cs" by simp
  from holder_of_phone [OF moved(4) nid] have i: "i < length cs" and hi: "e164 (cs ! i) = Some p"
    by blast+
  from FCC_get_Some [OF moved(5)] have j: "j < length cs" and mj: "matchesKey ?u (cs ! j)"
    and bj: "\<forall>k < j. \<not> matchesKey ?u (cs ! k)" by blast+
  from un have ue: "uniqueVals (map e164 cs)" by (simp add: uniqueness_def uniqueBy_def)
  have nth': "\<And>k. k < length cs \<Longrightarrow> k \<noteq> j \<Longrightarrow>
                ?cs' ! k = (if k = i then unsetE164 (cs ! i) else cs ! k)"
    by (simp add: nth_list_update)
  have nthj: "?cs' ! j = updateE164 p (cs ! j)" using j by simp
  have gp: "FCC_get ?cs' p = Some j"
  proof (rule FCC_get_first)
    show "j < length ?cs'" using j by simp
    show "matchesKey p (?cs' ! j)" using nthj by (simp add: matchesKey_def updateE164_def)
    show "\<forall>k < j. \<not> matchesKey p (?cs' ! k)"
    proof (intro allI impI)
      fix k assume kj: "k < j"
      with j have k: "k < length cs" and kne: "k \<noteq> j" by simp_all
      then have "cs ! k \<in> set cs" by simp
      with nid have idk: "conversationId (cs ! k) \<noteq> p" "uuid (cs ! k) \<noteq> Some p"
        by (simp_all add: notAnIdentifier_def)
      show "\<not> matchesKey p (?cs' ! k)"
      proof (cases "k = i")
        case True
        with nth' [OF k kne] idk show ?thesis by (simp add: matchesKey_def unsetE164_def)
      next
        case False
        with uniqueVals_holder [OF ue, of i p k] i hi moved(3) k
        have "e164 (cs ! k) \<noteq> Some p" by simp
        with nth' [OF k kne] False idk show ?thesis by (simp add: matchesKey_def)
      qed
    qed
  qed
  have gu: "FCC_get ?cs' ?u = Some j"
  proof (rule FCC_get_first)
    show "j < length ?cs'" using j by simp
    from j have "cs ! j \<in> set cs" by simp
    with nph have "e164 (cs ! j) \<noteq> Some ?u" by (simp add: notAPhoneNumber_def)
    with mj nthj show "matchesKey ?u (?cs' ! j)" by (auto simp: matchesKey_def updateE164_def)
    show "\<forall>k < j. \<not> matchesKey ?u (?cs' ! k)"
    proof (intro allI impI)
      fix k assume kj: "k < j"
      with j have k: "k < length cs" and kne: "k \<noteq> j" by simp_all
      from bj kj have "\<not> matchesKey ?u (cs ! k)" by simp
      with nth' [OF k kne] show "\<not> matchesKey ?u (?cs' ! k)"
        by (auto simp: matchesKey_def unsetE164_def)
    qed
  qed
  from second_merge_is_noop [OF gp gu moved(3) moved(8) moved(9)] moved(1,2,7)
  show ?thesis by (simp add: mergeObservation_def)
next
  case (attached p u i)
  let ?u = "toLowerCase u"
  let ?cs' = "cs[i := updateUuid ?u (cs ! i)]"
  from attached(1) np have nid: "notAnIdentifier p cs" by simp
  from holder_of_phone [OF attached(4) nid] have i: "i < length cs" and hi: "e164 (cs ! i) = Some p"
    by blast+
  from FCC_get_Some [OF attached(4)] have bi: "\<forall>k < i. \<not> matchesKey p (cs ! k)" by blast
  have gp: "FCC_get ?cs' p = Some i"
  proof (rule FCC_get_first)
    show "i < length ?cs'" using i by simp
    show "matchesKey p (?cs' ! i)" using i hi by (simp add: matchesKey_def updateUuid_def)
    show "\<forall>k < i. \<not> matchesKey p (?cs' ! k)" using bi by simp
  qed
  have gu: "FCC_get ?cs' ?u = Some i"
  proof (rule FCC_get_first)
    show "i < length ?cs'" using i by simp
    show "matchesKey ?u (?cs' ! i)" using i by (simp add: matchesKey_def updateUuid_def)
    show "\<forall>k < i. \<not> matchesKey ?u (?cs' ! k)"
    proof (intro allI impI)
      fix k assume "k < i"
      with i have "cs ! k \<in> set cs" "?cs' ! k = cs ! k" by simp_all
      with FCC_get_None [OF attached(5)] show "\<not> matchesKey ?u (?cs' ! k)" by simp
    qed
  qed
  from second_merge_is_noop [OF gp gu attached(3) attached(7) attached(8)] attached(1,2,6)
  show ?thesis by (simp add: mergeObservation_def)
qed


theorem merge_idempotent_witness:
  "uniqueness directoryAB \<and>
   notAnIdentifier ''+13215559876'' directoryAB \<and>
   notAPhoneNumber (toLowerCase ''33333333-CCCC'') directoryAB \<and>
   mergeObservation observationAB directoryAB \<noteq> directoryAB \<and>
   mergeObservation observationAB (mergeObservation observationAB directoryAB) =
     mergeObservation observationAB directoryAB"
proof -
  have u: "uniqueness directoryAB"
    by (simp add: uniqueness_def uniqueBy_def uniqueVals_def directoryAB_def recordA_def
          recordB_def lessThan_Suc)
  have p: "\<forall>p. fst observationAB = Some p \<longrightarrow> notAnIdentifier p directoryAB"
    by (simp add: observationAB_def notAnIdentifier_def directoryAB_def recordA_def recordB_def)
  have i: "\<forall>u. fst (snd observationAB) = Some u \<longrightarrow>
             notAPhoneNumber (toLowerCase u) directoryAB"
    by (simp add: observationAB_def notAPhoneNumber_def directoryAB_def recordA_def recordB_def
          toLowerCase_def lowerChar_def)
  have m: "mergeObservation observationAB directoryAB \<noteq> directoryAB"
    by (simp add: mergeObservation_def observationAB_def directoryAB_def recordA_def
          recordB_def FCC_get_def matchesKey_def toLowerCase_def lowerChar_def Let_def
          unsetE164_def updateE164_def)
  from merge_idempotent [OF u p i] u p i m show ?thesis
    by (simp add: observationAB_def)
qed

subsection \<open>The merge of two records\<close>

text \<open>
  Claim C4, as the spec states it: after the merge of record A (only phone
  number P) with record B (only account identifier U), A is retired from the
  directory. The directory of the test never drops a record: after the merge
  a record with A's local id is still there.
\<close>

theorem merged_record_not_retired:
  "FCC_get directoryAB ''+13215559876'' = Some 0 \<and>
   FCC_get directoryAB (toLowerCase ''33333333-CCCC'') = Some 1 \<and>
   \<not> retired (conversationId recordA)
       (snd (maybeMergeContacts (Some ''+13215559876'') (Some ''33333333-CCCC'') (Some ''test'')
               directoryAB))"
  by (simp add: retired_def directoryAB_def recordA_def recordB_def FCC_get_def matchesKey_def
        toLowerCase_def lowerChar_def Let_def unsetE164_def updateE164_def)

text \<open>
  Claim C4, amended: when the directory finds record A for P and a distinct
  record B for U, A holding only the phone number P and B only the account
  identifier U, the merge returns B, B then holds both P and U, A's phone
  number is stripped, and A, now holding neither field, stays in the
  directory under its local id.
\<close>

theorem merge_of_two_records:
  assumes "FCC_get cs p = Some i" and "FCC_get cs (toLowerCase u) = Some j" and "i \<noteq> j"
    and "p \<noteq> []" and "u \<noteq> []" and "truthy reason"
    and "e164 (cs ! i) = Some p" and "uuid (cs ! i) = None"
    and "e164 (cs ! j) = None" and "uuid (cs ! j) = Some (toLowerCase u)"
  shows "fst (maybeMergeContacts (Some p) (Some u) reason cs) = Inr j \<and>
         snd (maybeMergeContacts (Some p) (Some u) reason cs) =
           cs[i := (cs ! i)\<lparr>e164 := None\<rparr>, j := (cs ! j)\<lparr>e164 := Some p\<rparr>] \<and>
         e164 (snd (maybeMergeContacts (Some p) (Some u) reason cs) ! j) = Some p \<and>
         uuid (snd (maybeMergeContacts (Some p) (Some u) reason cs) ! j) = Some (toLowerCase u) \<and>
         e164 (snd (maybeMergeContacts (Some p) (Some u) reason cs) ! i) = None \<and>
         uuid (snd (maybeMergeContacts (Some p) (Some u) reason cs) ! i) = None \<and>
         \<not> retired (conversationId (cs ! i))
             (snd (maybeMergeContacts (Some p) (Some u) reason cs))"
proof -
  from FCC_get_Some [OF assms(1)] FCC_get_Some [OF assms(2)]
  have i: "i < length cs" and j: "j < length cs" by blast+
  let ?cs' = "cs[i := (cs ! i)\<lparr>e164 := None\<rparr>, j := (cs ! j)\<lparr>e164 := Some p\<rparr>]"
  from assms(1-6) have r: "maybeMergeContacts (Some p) (Some u) reason cs = (Inr j, ?cs')"
    by (simp add: Let_def unsetE164_def updateE164_def)
  from i j assms(3) have ni: "?cs' ! i = (cs ! i)\<lparr>e164 := None\<rparr>"
    and nj: "?cs' ! j = (cs ! j)\<lparr>e164 := Some p\<rparr>" by simp_all
  from i have "?cs' ! i \<in> set ?cs'" by (intro nth_mem) simp
  with ni have "\<exists>c \<in> set ?cs'. conversationId c = conversationId (cs ! i)"
    by (intro bexI [of _ "?cs' ! i"]) simp_all
  then have "\<not> retired (conversationId (cs ! i)) ?cs'" by (simp add: retired_def)
  with r ni nj assms(8,10) show ?thesis by simp
qed

theorem merge_of_two_records_witness:
  "FCC_get directoryAB ''+13215559876'' = Some 0 \<and>
   FCC_get directoryAB (toLowerCase ''33333333-CCCC'') = Some 1 \<and>
   maybeMergeContacts (Some ''+13215559876'') (Some ''33333333-CCCC'') (Some ''test'') directoryAB =
     (Inr 1, [recordA\<lparr>e164 := None\<rparr>, recordB\<lparr>e164 := Some ''+13215559876''\<rparr>])"
proof -
  have a: "FCC_get directoryAB ''+13215559876'' = Some 0"
    by (simp add: directoryAB_def recordA_def recordB_def FCC_get_def matchesKey_def)
  have b: "FCC_get directoryAB (toLowerCase ''33333333-CCCC'') = Some 1"
    by (simp add: directoryAB_def recordA_def recordB_def FCC_get_def matchesKey_def
          toLowerCase_def lowerChar_def)
  have t: "truthy (Some ''test'')" by simp
  from merge_of_two_records [OF a b _ _ _ t, of] a b show ?thesis
    by (simp add: directoryAB_def recordA_def recordB_def toLowerCase_def lowerChar_def
          prod_eq_iff)
qed


section \<open>Properties of the batch lookup\<close>

subsection \<open>One candidate\<close>

text \<open>From here on a merge is used through its three outcomes.\<close>

declare maybeMergeContacts.simps [simp del]

lemma reconcile_cases:
  obtains
    (skipped) "reconcileCandidate srv now sl i (cs, tr) = (cs, tr)"
  | (merged) p aci where
      "e164 (cs ! i) = Some p" "p \<noteq> []" "sl p = Some aci"
      "reconcileCandidate srv now sl i (cs, tr) =
         (snd (maybeMergeContacts (Some p) (Some aci)
                 (Some ''updateConversationsWithUuidLookup'') cs), tr)"
  | (kept) p r where
      "e164 (cs ! i) = Some p" "p \<noteq> []" "sl p = None"
      "checkAccountExistence srv (cs ! i) = r" "r \<noteq> Some False"
      "reconcileCandidate srv now sl i (cs, tr) = (cs, tr @ [(i, r)])"
  | (marked) p where
      "e164 (cs ! i) = Some p" "p \<noteq> []" "sl p = None"
      "checkAccountExistence srv (cs ! i) = Some False"
      "reconcileCandidate srv now sl i (cs, tr) =
         (cs[i := markUnregistered now (cs ! i)], tr @ [(i, Some False)])"
proof (cases "e164 (cs ! i)")
  case None
  then show ?thesis using skipped by (simp add: reconcileCandidate_def)
next
  case (Some p)
  note ph = this
  show ?thesis
  proof (cases "p = []")
    case True
    with ph show ?thesis using skipped by (simp add: reconcileCandidate_def)
  next
    case ne: False
    show ?thesis
    proof (cases "sl p")
      case (Some aci)
      with ph ne show ?thesis using merged by (simp add: reconcileCandidate_def)
    next
      case None
      note no = this
      show ?thesis
      proof (cases "checkAccountExistence srv (cs ! i) = Some False")
        case True
        with ph ne no show ?thesis using marked by (simp add: reconcileCandidate_def)
      next
        case False
        with ph ne no have "reconcileCandidate srv now sl i (cs, tr) =
            (cs, tr @ [(i, checkAccountExistence srv (cs ! i))])"
          by (auto simp: reconcileCandidate_def Let_def split: option.splits bool.splits)
        with ph ne no False show ?thesis using kept by blast
      qed
    qed
  qed
qed

text \<open>
  The existence check is issued, and recorded with its answer, exactly for a
  candidate whose phone number received no lookup result.
\<close>

lemma existence_check_recorded:
  assumes "e164 (cs ! i) = Some p" and "p \<noteq> []"
  shows "snd (reconcileCandidate srv now sl i (cs, tr)) =
           (if sl p = None then tr @ [(i, checkAccountExistence srv (cs ! i))] else tr)"
  using assms by (auto simp: reconcileCandidate_def Let_def split: option.splits bool.splits)

lemma no_phone_no_check:
  assumes "\<not> truthy (e164 (cs ! i))"
  shows "reconcileCandidate srv now sl i (cs, tr) = (cs, tr)"
  using assms by (cases "e164 (cs ! i)") (simp_all add: reconcileCandidate_def)

lemma merge_length: "length (snd (maybeMergeContacts eo uo r cs)) = length cs"
  by (cases eo uo r cs rule: merge_outcomes) simp_all

lemma reconcile_length:
  "length (fst (reconcileCandidate srv now sl i (cs, tr))) = length cs"
  by (cases srv now sl i cs tr rule: reconcile_cases) (simp_all add: merge_length)

lemma reconcile_checks:
  "set tr \<subseteq> set (snd (reconcileCandidate srv now sl i (cs, tr)))"
  by (cases srv now sl i cs tr rule: reconcile_cases) auto

subsection \<open>The namespaces stay apart during a batch\<close>

lemma separateNamespaces_iff:
  "separateNamespaces sl cs \<longleftrightarrow>
     (\<forall>c \<in> set cs. \<forall>p. e164 c = Some p \<longrightarrow>
        (\<forall>d \<in> set cs. conversationId d \<noteq> p \<and> uuid d \<noteq> Some p \<and>
           (\<forall>q a. e164 d = Some q \<longrightarrow> sl q = Some a \<longrightarrow> toLowerCase a \<noteq> p)))"
  unfolding separateNamespaces_def notAnIdentifier_def
  apply (auto split: option.splits)
   apply blast+
  done

lemma separateNamespacesD:
  assumes "separateNamespaces sl cs" "c \<in> set cs" "e164 c = Some p" "d \<in> set cs"
  shows "conversationId d \<noteq> p" "uuid d \<noteq> Some p"
    "e164 d = Some q \<Longrightarrow> sl q = Some a \<Longrightarrow> toLowerCase a \<noteq> p"
  using assms unfolding separateNamespaces_iff by blast+

lemma separateNamespaces_notAnIdentifier:
  assumes "separateNamespaces sl cs" "c \<in> set cs" "e164 c = Some p"
  shows "notAnIdentifier p cs"
  using separateNamespacesD(1,2) [OF assms] by (simp add: notAnIdentifier_def)

lemma separateNamespaces_mono:
  assumes sep: "separateNamespaces sl cs"
    and ph: "\<And>c' p. c' \<in> set cs' \<Longrightarrow> e164 c' = Some p \<Longrightarrow> \<exists>c \<in> set cs. e164 c = Some p"
    and ids: "\<And>c'. c' \<in> set cs' \<Longrightarrow> \<exists>c \<in> set cs. conversationId c = conversationId c'"
    and us: "\<And>c' u. c' \<in> set cs' \<Longrightarrow> uuid c' = Some u \<Longrightarrow>
               (\<exists>c \<in> set cs. uuid c = Some u) \<or>
               (\<exists>c \<in> set cs. \<exists>q a. e164 c = Some q \<and> sl q = Some a \<and> toLowerCase a = u)"
  shows "separateNamespaces sl cs'"
  unfolding separateNamespaces_iff
proof (intro ballI allI impI)
  fix c' p d'
  assume c': "c' \<in> set cs'" and e: "e164 c' = Some p" and d': "d' \<in> set cs'"
  from ph [OF c' e] obtain c where c: "c \<in> set cs" "e164 c = Some p" by blast
  note D = separateNamespacesD [OF sep c]
  from ids [OF d'] obtain d where d: "d \<in> set cs" "conversationId d = conversationId d'"
    by blast
  from D(1) [OF d(1)] d(2) have one: "conversationId d' \<noteq> p" by simp
  have two: "uuid d' \<noteq> Some p"
  proof
    assume u: "uuid d' = Some p"
    from us [OF d' u] show False
    proof
      assume "\<exists>c \<in> set cs. uuid c = Some p"
      then obtain x where "x \<in> set cs" "uuid x = Some p" by blast
      with D(2) show False by blast
    next
      assume "\<exists>c \<in> set cs. \<exists>q a. e164 c = Some q \<and> sl q = Some a \<and> toLowerCase a = p"
      then obtain x q a where "x \<in> set cs" "e164 x = Some q" "sl q = Some a" "toLowerCase a = p"
        by blast
      with D(3) show False by blast
    qed
  qed
  have three: "\<forall>q a. e164 d' = Some q \<longrightarrow> sl q = Some a \<longrightarrow> toLowerCase a \<noteq> p"
  proof (intro allI impI)
    fix q a assume q: "e164 d' = Some q" and a: "sl q = Some a"
    from ph [OF d' q] obtain x where "x \<in> set cs" "e164 x = Some q" by blast
    with D(3) a show "toLowerCase a \<noteq> p" by blast
  qed
  from one two three
  show "conversationId d' \<noteq> p \<and> uuid d' \<noteq> Some p \<and>
        (\<forall>q a. e164 d' = Some q \<longrightarrow> sl q = Some a \<longrightarrow> toLowerCase a \<noteq> p)"
    by blast
qed

lemma merge_keeps_separateNamespaces:
  assumes sep: "separateNamespaces sl cs" and h: "h \<in> set cs" "e164 h = Some p"
    and sl: "sl p = Some aci"
  shows "separateNamespaces sl (snd (maybeMergeContacts (Some p) (Some aci) r cs))"
proof (cases "Some p" "Some aci" r cs rule: merge_outcomes)
  case unchanged
  with sep show ?thesis by simp
next
  case (moved p' u i j)
  from moved(1,2) have eq: "p' = p" "u = aci" by simp_all
  from FCC_get_Some [OF moved(4)] FCC_get_Some [OF moved(5)]
  have mem: "cs ! i \<in> set cs" "cs ! j \<in> set cs" by simp_all
  let ?cs' = "cs[i := unsetE164 (cs ! i), j := updateE164 p (cs ! j)]"
  have el: "c = updateE164 p (cs ! j) \<or> c = unsetE164 (cs ! i) \<or> c \<in> set cs"
    if "c \<in> set ?cs'" for c
    using that by (auto dest!: in_set_update)
  have "separateNamespaces sl ?cs'"
  proof (rule separateNamespaces_mono [OF sep])
    fix c' q assume "c' \<in> set ?cs'" and e: "e164 c' = Some q"
    from el [OF this(1)] e h show "\<exists>c \<in> set cs. e164 c = Some q"
      by (auto simp: updateE164_def unsetE164_def)
  next
    fix c' assume "c' \<in> set ?cs'"
    from el [OF this] mem show "\<exists>c \<in> set cs. conversationId c = conversationId c'"
      by (auto simp: updateE164_def unsetE164_def)
  next
    fix c' v assume "c' \<in> set ?cs'" and u: "uuid c' = Some v"
    from el [OF this(1)] u mem have "\<exists>c \<in> set cs. uuid c = Some v"
      by (auto simp: updateE164_def unsetE164_def)
    then show "(\<exists>c \<in> set cs. uuid c = Some v) \<or>
               (\<exists>c \<in> set cs. \<exists>q a. e164 c = Some q \<and> sl q = Some a \<and> toLowerCase a = v)"
      by (rule disjI1)
  qed
  with moved(7) eq show ?thesis by simp
next
  case (attached p' u i)
  from attached(1,2) have eq: "p' = p" "u = aci" by simp_all
  from FCC_get_Some [OF attached(4)] have mem: "cs ! i \<in> set cs" by simp
  let ?cs' = "cs[i := updateUuid (toLowerCase aci) (cs ! i)]"
  have el: "c = updateUuid (toLowerCase aci) (cs ! i) \<or> c \<in> set cs"
    if "c \<in> set ?cs'" for c
    using that by (rule in_set_update)
  have "separateNamespaces sl ?cs'"
  proof (rule separateNamespaces_mono [OF sep])
    fix c' q assume "c' \<in> set ?cs'" and e: "e164 c' = Some q"
    from el [OF this(1)] e mem show "\<exists>c \<in> set cs. e164 c = Some q"
      by (auto simp: updateUuid_def)
  next
    fix c' assume "c' \<in> set ?cs'"
    from el [OF this] mem show "\<exists>c \<in> set cs. conversationId c = conversationId c'"
      by (auto simp: updateUuid_def)
  next
    fix c' v assume "c' \<in> set ?cs'" and u: "uuid c' = Some v"
    from el [OF this(1)]
    show "(\<exists>c \<in> set cs. uuid c = Some v) \<or>
          (\<exists>c \<in> set cs. \<exists>q a. e164 c = Some q \<and> sl q = Some a \<and> toLowerCase a = v)"
    proof
      assume "c' = updateUuid (toLowerCase aci) (cs ! i)"
      with u have "toLowerCase aci = v" by (simp add: updateUuid_def)
      with h sl show ?thesis by blast
    next
      assume "c' \<in> set cs"
      with u show ?thesis by blast
    qed
  qed
  with attached(6) eq show ?thesis by simp
qed

lemma mark_keeps_separateNamespaces:
  assumes sep: "separateNamespaces sl cs" and i: "i < length cs"
  shows "separateNamespaces sl (cs[i := markUnregistered now (cs ! i)])"
proof (rule separateNamespaces_mono [OF sep])
  from i have mem: "cs ! i \<in> set cs" by simp
  have el: "c = markUnregistered now (cs ! i) \<or> c \<in> set cs"
    if "c \<in> set (cs[i := markUnregistered now (cs ! i)])" for c
    using that by (rule in_set_update)
  {
    fix c' q assume "c' \<in> set (cs[i := markUnregistered now (cs ! i)])" and e: "e164 c' = Some q"
    from el [OF this(1)] e mem show "\<exists>c \<in> set cs. e164 c = Some q"
      by (auto simp: markUnregistered_def)
  next
    fix c' assume "c' \<in> set (cs[i := markUnregistered now (cs ! i)])"
    from el [OF this] mem show "\<exists>c \<in> set cs. conversationId c = conversationId c'"
      by (auto simp: markUnregistered_def)
  next
    fix c' v assume "c' \<in> set (cs[i := markUnregistered now (cs ! i)])" and u: "uuid c' = Some v"
    from el [OF this(1)] u have "\<exists>c \<in> set cs. uuid c = Some v"
      by (auto simp: markUnregistered_def)
    then show "(\<exists>c \<in> set cs. uuid c = Some v) \<or>
               (\<exists>c \<in> set cs. \<exists>q a. e164 c = Some q \<and> sl q = Some a \<and> toLowerCase a = v)"
      by (rule disjI1)
  }
qed

lemma reconcile_keeps_separateNamespaces:
  assumes sep: "separateNamespaces sl cs" and i: "i < length cs"
  shows "separateNamespaces sl (fst (reconcileCandidate srv now sl i (cs, tr)))"
proof (cases srv now sl i cs tr rule: reconcile_cases)
  case skipped
  with sep show ?thesis by simp
next
  case (merged p aci)
  from i have "cs ! i \<in> set cs" by simp
  from merge_keeps_separateNamespaces [OF sep this merged(1,3)] merged(4)
  show ?thesis by simp
next
  case (kept p r)
  with sep show ?thesis by simp
next
  case (marked p)
  from mark_keeps_separateNamespaces [OF sep i] marked(5) show ?thesis by simp
qed

subsection \<open>What one candidate's step does to a record\<close>

text \<open>
  For a record that does not contradict the lookup, the step of any candidate
  keeps its account identifier and its \<^verbatim>\<open>discoveredUnregisteredAt\<close>, unless it
  is the record's own step and the existence check answered ``does not
  exist''.
\<close>

lemma reconcile_record:
  assumes sep: "separateNamespaces sl cs" and ag: "agreesWithLookup sl (cs ! k)"
    and k: "k < length cs" and i: "i < length cs"
  shows "agreesWithLookup sl (fst (reconcileCandidate srv now sl i (cs, tr)) ! k) \<and>
         (uuid (fst (reconcileCandidate srv now sl i (cs, tr)) ! k) = uuid (cs ! k) \<and>
          discoveredUnregisteredAt (fst (reconcileCandidate srv now sl i (cs, tr)) ! k) =
            discoveredUnregisteredAt (cs ! k)
          \<or>
          i = k \<and> snd (reconcileCandidate srv now sl i (cs, tr)) = tr @ [(k, Some False)] \<and>
          uuid (fst (reconcileCandidate srv now sl i (cs, tr)) ! k) = None \<and>
          discoveredUnregisteredAt (fst (reconcileCandidate srv now sl i (cs, tr)) ! k) =
            Some now)"
proof (cases srv now sl i cs tr rule: reconcile_cases)
  case skipped
  with ag show ?thesis by simp
next
  case (kept p r)
  with ag show ?thesis by simp
next
  case (marked p)
  show ?thesis
  proof (cases "i = k")
    case True
    with marked k show ?thesis
      by (simp add: markUnregistered_def agreesWithLookup_def)
  next
    case False
    with marked ag show ?thesis by simp
  qed
next
  case (merged p aci)
  from i have hi: "cs ! i \<in> set cs" by simp
  from k have hk: "cs ! k \<in> set cs" by simp
  let ?r = "Some ''updateConversationsWithUuidLookup''"
  show ?thesis
  proof (cases "Some p" "Some aci" ?r cs rule: merge_outcomes)
    case unchanged
    with merged(4) ag show ?thesis by simp
  next
    case (moved p' u a b)
    from moved(1,2) have eq: "p' = p" "u = aci" by simp_all
    from FCC_get_Some [OF moved(4)] FCC_get_Some [OF moved(5)]
    have a: "a < length cs" and b: "b < length cs"
      and mb: "matchesKey (toLowerCase aci) (cs ! b)" using eq by simp_all
    from merged(4) moved(7) eq
    have st: "reconcileCandidate srv now sl i (cs, tr) =
        (cs[a := unsetE164 (cs ! a), b := updateE164 p (cs ! b)], tr)" by simp
    show ?thesis
    proof (cases "k = b")
      case True
      from b have hb: "cs ! b \<in> set cs" by simp
      have "e164 (cs ! b) \<noteq> Some (toLowerCase aci)"
      proof
        assume "e164 (cs ! b) = Some (toLowerCase aci)"
        from separateNamespacesD(3) [OF sep hb this hi merged(1,3)] show False by simp
      qed
      with mb have "uuid (cs ! b) = Some (toLowerCase aci) \<or>
          conversationId (cs ! b) = toLowerCase aci"
        by (auto simp: matchesKey_def)
      with True st b merged(3) show ?thesis
        by (simp add: updateE164_def agreesWithLookup_def)
    next
      case kb: False
      show ?thesis
      proof (cases "k = a")
        case True
        with kb st a show ?thesis by (simp add: unsetE164_def agreesWithLookup_def)
      next
        case False
        with kb st ag show ?thesis by simp
      qed
    qed
  next
    case (attached p' u a)
    from attached(1,2) have eq: "p' = p" "u = aci" by simp_all
    from merged(4) attached(6) eq
    have st: "reconcileCandidate srv now sl i (cs, tr) =
        (cs[a := updateUuid (toLowerCase aci) (cs ! a)], tr)" by simp
    have "k \<noteq> a"
    proof
      assume ka: "k = a"
      from separateNamespaces_notAnIdentifier [OF sep hi merged(1)]
      have "notAnIdentifier p cs" .
      from holder_of_phone [OF _ this] attached(4) eq ka
      have "e164 (cs ! k) = Some p" by simp
      with ag merged(3) have "matchesKey (toLowerCase aci) (cs ! k)"
        by (auto simp: agreesWithLookup_def matchesKey_def)
      moreover from FCC_get_None [OF attached(5)] eq hk
      have "\<not> matchesKey (toLowerCase aci) (cs ! k)" by simp
      ultimately show False by simp
    qed
    with st ag show ?thesis by simp
  qed
qed

text \<open>
  A step that records the answer ``does not exist'' for the record at \<open>k\<close> is
  the step of that record, and marks it unregistered.
\<close>

lemma reconcile_marks:
  assumes i: "i < length cs"
    and new: "(k, Some False) \<in> set (snd (reconcileCandidate srv now sl i (cs, tr)))"
      "(k, Some False) \<notin> set tr"
  shows "uuid (fst (reconcileCandidate srv now sl i (cs, tr)) ! k) = None \<and>
         discoveredUnregisteredAt (fst (reconcileCandidate srv now sl i (cs, tr)) ! k) = Some now \<and>
         agreesWithLookup sl (fst (reconcileCandidate srv now sl i (cs, tr)) ! k)"
proof (cases srv now sl i cs tr rule: reconcile_cases)
  case skipped
  with new show ?thesis by simp
next
  case (merged p aci)
  with new show ?thesis by simp
next
  case (kept p r)
  with new show ?thesis by auto
next
  case (marked p)
  with new have "i = k" by auto
  with marked i show ?thesis by (simp add: markUnregistered_def agreesWithLookup_def)
qed

subsection \<open>A whole batch\<close>

lemma batch_checks:
  "set tr \<subseteq> set (snd (fold (reconcileCandidate srv now sl) candidates (cs, tr)))"
proof (induction candidates arbitrary: cs tr)
  case Nil
  then show ?case by simp
next
  case (Cons i "is")
  obtain cs1 tr1 where st: "reconcileCandidate srv now sl i (cs, tr) = (cs1, tr1)"
    by (cases "reconcileCandidate srv now sl i (cs, tr)")
  from reconcile_checks [of tr srv now sl i cs] st have "set tr \<subseteq> set tr1" by simp
  also from Cons.IH [of tr1 cs1]
  have "set tr1 \<subseteq> set (snd (fold (reconcileCandidate srv now sl) is (cs1, tr1)))" .
  finally show ?case using st by simp
qed

lemma batch_keeps_record:
  assumes "separateNamespaces sl cs" and "agreesWithLookup sl (cs ! k)"
    and "k < length cs" and "\<forall>i \<in> set candidates. i < length cs"
    and "(k, Some False) \<notin> set (snd (fold (reconcileCandidate srv now sl) candidates (cs, tr)))"
  shows "uuid (fst (fold (reconcileCandidate srv now sl) candidates (cs, tr)) ! k) =
           uuid (cs ! k) \<and>
         discoveredUnregisteredAt
           (fst (fold (reconcileCandidate srv now sl) candidates (cs, tr)) ! k) =
           discoveredUnregisteredAt (cs ! k)"
  using assms
proof (induction candidates arbitrary: cs tr)
  case Nil
  then show ?case by simp
next
  case (Cons i "is")
  obtain cs1 tr1 where st: "reconcileCandidate srv now sl i (cs, tr) = (cs1, tr1)"
    by (cases "reconcileCandidate srv now sl i (cs, tr)")
  from Cons.prems(4) have i: "i < length cs" by simp
  from reconcile_length [of srv now sl i cs tr] st have len: "length cs1 = length cs" by simp
  from Cons.prems(5) st
  have notin: "(k, Some False) \<notin> set (snd (fold (reconcileCandidate srv now sl) is (cs1, tr1)))"
    by simp
  with batch_checks [of tr1 srv now sl "is" cs1] have n1: "(k, Some False) \<notin> set tr1" by blast
  from reconcile_record [OF Cons.prems(1,2,3) i, of srv now tr] st n1
  have ag1: "agreesWithLookup sl (cs1 ! k)"
    and same: "uuid (cs1 ! k) = uuid (cs ! k)"
      "discoveredUnregisteredAt (cs1 ! k) = discoveredUnregisteredAt (cs ! k)"
    by auto
  from reconcile_keeps_separateNamespaces [OF Cons.prems(1) i, of srv now tr] st
  have sep1: "separateNamespaces sl cs1" by simp
  from Cons.prems(3,4) len have "k < length cs1" "\<forall>i \<in> set is. i < length cs1" by simp_all
  from Cons.IH [OF sep1 ag1 this notin] same st show ?case by simp
qed

lemma batch_keeps_mark:
  assumes "separateNamespaces sl cs" and "agreesWithLookup sl (cs ! k)"
    and "k < length cs" and "\<forall>i \<in> set candidates. i < length cs"
    and "uuid (cs ! k) = None" and "discoveredUnregisteredAt (cs ! k) = Some now"
  shows "uuid (fst (fold (reconcileCandidate srv now sl) candidates (cs, tr)) ! k) = None \<and>
         discoveredUnregisteredAt
           (fst (fold (reconcileCandidate srv now sl) candidates (cs, tr)) ! k) = Some now"
  using assms
proof (induction candidates arbitrary: cs tr)
  case Nil
  then show ?case by simp
next
  case (Cons i "is")
  obtain cs1 tr1 where st: "reconcileCandidate srv now sl i (cs, tr) = (cs1, tr1)"
    by (cases "reconcileCandidate srv now sl i (cs, tr)")
  from Cons.prems(4) have i: "i < length cs" by simp
  from reconcile_length [of srv now sl i cs tr] st have len: "length cs1 = length cs" by simp
  from reconcile_record [OF Cons.prems(1,2,3) i, of srv now tr] st Cons.prems(5,6)
  have ag1: "agreesWithLookup sl (cs1 ! k)"
    and m1: "uuid (cs1 ! k) = None" "discoveredUnregisteredAt (cs1 ! k) = Some now"
    by auto
  from reconcile_keeps_separateNamespaces [OF Cons.prems(1) i, of srv now tr] st
  have sep1: "separateNamespaces sl cs1" by simp
  from Cons.prems(3,4) len have "k < length cs1" "\<forall>i \<in> set is. i < length cs1" by simp_all
  from Cons.IH [OF sep1 ag1 this m1] st show ?case by simp
qed

lemma batch_marks_record:
  assumes "separateNamespaces sl cs"
    and "k < length cs" and "\<forall>i \<in> set candidates. i < length cs"
    and "(k, Some False) \<in> set (snd (fold (reconcileCandidate srv now sl) candidates (cs, tr)))"
    and "(k, Some False) \<notin> set tr"
  shows "uuid (fst (fold (reconcileCandidate srv now sl) candidates (cs, tr)) ! k) = None \<and>
         discoveredUnregisteredAt
           (fst (fold (reconcileCandidate srv now sl) candidates (cs, tr)) ! k) = Some now"
  using assms
proof (induction candidates arbitrary: cs tr)
  case Nil
  then show ?case by simp
next
  case (Cons i "is")
  obtain cs1 tr1 where st: "reconcileCandidate srv now sl i (cs, tr) = (cs1, tr1)"
    by (cases "reconcileCandidate srv now sl i (cs, tr)")
  from Cons.prems(3) have i: "i < length cs" by simp
  from reconcile_length [of srv now sl i cs tr] st have len: "length cs1 = length cs" by simp
  from reconcile_keeps_separateNamespaces [OF Cons.prems(1) i, of srv now tr] st
  have sep1: "separateNamespaces sl cs1" by simp
  from Cons.prems(2,3) len have k1: "k < length cs1" and is1: "\<forall>i \<in> set is. i < length cs1"
    by simp_all
  from Cons.prems(4) st
  have inn: "(k, Some False) \<in> set (snd (fold (reconcileCandidate srv now sl) is (cs1, tr1)))"
    by simp
  show ?case
  proof (cases "(k, Some False) \<in> set tr1")
    case True
    with st have "(k, Some False) \<in> set (snd (reconcileCandidate srv now sl i (cs, tr)))"
      by simp
    from reconcile_marks [OF i this Cons.prems(5)] st
    have "uuid (cs1 ! k) = None" "discoveredUnregisteredAt (cs1 ! k) = Some now"
      "agreesWithLookup sl (cs1 ! k)" by simp_all
    from batch_keeps_mark [OF sep1 this(3) k1 is1 this(1,2)] st show ?thesis by simp
  next
    case False
    from Cons.IH [OF sep1 k1 is1 inn False] st show ?thesis by simp
  qed
qed

lemma lookupOmits_agrees: "lookupOmits sl c \<Longrightarrow> agreesWithLookup sl c"
  by (auto simp: lookupOmits_def agreesWithLookup_def split: option.splits)

text \<open>
  The scenario ``updates conversations with their UUID'' of the lookup test:
  both candidates receive the account identifier the lookup returned, and the
  identifier the second one held before is overwritten. No existence check
  is issued.
\<close>

lemma lookup_test_updates_conversations:
  "updateConversationsWithUuidLookup serverFinds 1000 [0, 1] [recordA, recordKnown] =
     ([recordA\<lparr>uuid := Some ''66666666-ffff''\<rparr>,
       recordKnown\<lparr>uuid := Some ''77777777-aaaa''\<rparr>], [])"
  by (simp add: updateConversationsWithUuidLookup_def candidatePhones_def
        reconcileCandidate_def serverFinds_def recordKnown_def recordA_def Let_def
        maybeMergeContacts.simps FCC_get_def matchesKey_def toLowerCase_def lowerChar_def updateUuid_def)

text \<open>
  The other scenarios of the lookup test. With no phone number among the
  candidates nothing happens, whatever the server would answer. A candidate
  with a phone number only, which the lookup does not find and the existence
  check reports as not existing, is marked unregistered. A candidate that
  holds an account identifier keeps it when the check answers ``exists'', and
  loses it and is marked unregistered when the check answers ``does not
  exist''.
\<close>

lemma lookup_test_no_phone_numbers:
  "candidatePhones candidates cs = [] \<Longrightarrow>
   updateConversationsWithUuidLookup srv now candidates cs = (cs, [])"
  by (simp add: updateConversationsWithUuidLookup_def)

lemma lookup_test_marks_unregistered:
  "updateConversationsWithUuidLookup serverGone 1000 [0] [recordA] =
     ([recordA\<lparr>discoveredUnregisteredAt := Some 1000\<rparr>], [(0, Some False)])"
  by (simp add: updateConversationsWithUuidLookup_def candidatePhones_def
        reconcileCandidate_def serverGone_def recordA_def Let_def markUnregistered_def)

lemma lookup_test_keeps_known_account:
  "updateConversationsWithUuidLookup serverExists 1000 [0] [recordKnown] =
     ([recordKnown], [(0, Some True)])"
  by (simp add: updateConversationsWithUuidLookup_def candidatePhones_def
        reconcileCandidate_def serverExists_def recordKnown_def Let_def)

lemma lookup_test_removes_account:
  "updateConversationsWithUuidLookup serverGone 1000 [0] [recordKnown] =
     ([recordKnown\<lparr>uuid := None, discoveredUnregisteredAt := Some 1000\<rparr>],
      [(0, Some False)])"
  by (simp add: updateConversationsWithUuidLookup_def candidatePhones_def
        reconcileCandidate_def serverGone_def recordKnown_def Let_def markUnregistered_def)

text \<open>
  Claim C6: a record that already holds an account identifier and for which
  the batch lookup returns no result keeps the identifier, and its
  \<^verbatim>\<open>discoveredUnregisteredAt\<close> stays as it was (unset when it was unset),
  through the whole batch, whatever the lookup returned for the other
  candidates and whatever their steps do, unless an existence check issued
  for the record during the batch reported non-existence. The candidates are
  records of the directory, and phone numbers and identifiers come from
  separate namespaces.
\<close>

theorem omission_keeps_account:
  assumes "k < length cs" and "\<forall>i \<in> set candidates. i < length cs"
    and "uuid (cs ! k) = Some u"
    and "\<forall>sl. cdsLookup srv (candidatePhones candidates cs) = Some sl \<longrightarrow>
           separateNamespaces sl cs \<and> lookupOmits sl (cs ! k)"
    and "(k, Some False) \<notin> set (snd (updateConversationsWithUuidLookup srv now candidates cs))"
  shows "uuid (fst (updateConversationsWithUuidLookup srv now candidates cs) ! k) = Some u \<and>
         discoveredUnregisteredAt
           (fst (updateConversationsWithUuidLookup srv now candidates cs) ! k) =
           discoveredUnregisteredAt (cs ! k)"
proof (cases "candidatePhones candidates cs = []")
  case True
  with assms(3) show ?thesis by (simp add: updateConversationsWithUuidLookup_def)
next
  case ne: False
  show ?thesis
  proof (cases "cdsLookup srv (candidatePhones candidates cs)")
    case None
    with ne assms(3) show ?thesis by (simp add: updateConversationsWithUuidLookup_def)
  next
    case (Some sl)
    with ne have run: "updateConversationsWithUuidLookup srv now candidates cs =
        fold (reconcileCandidate srv now sl) candidates (cs, [])"
      by (simp add: updateConversationsWithUuidLookup_def)
    from assms(4) Some have sep: "separateNamespaces sl cs" and om: "lookupOmits sl (cs ! k)"
      by simp_all
    from om have ag: "agreesWithLookup sl (cs ! k)" by (rule lookupOmits_agrees)
    from assms(5) run
    have "(k, Some False) \<notin> set (snd (fold (reconcileCandidate srv now sl) candidates (cs, [])))"
      by simp
    from batch_keeps_record [OF sep ag assms(1,2) this] run assms(3) show ?thesis by simp
  qed
qed

theorem omission_keeps_account_witness:
  "(0::nat) < length [recordKnown, recordA] \<and>
   uuid ([recordKnown, recordA] ! 0) = Some ''55555555-eeee'' \<and>
   cdsLookup serverFindsOne (candidatePhones [0, 1] [recordKnown, recordA]) =
     Some (map_of [(''+13215559876'', ''66666666-ffff'')]) \<and>
   separateNamespaces (map_of [(''+13215559876'', ''66666666-ffff'')]) [recordKnown, recordA] \<and>
   lookupOmits (map_of [(''+13215559876'', ''66666666-ffff'')]) ([recordKnown, recordA] ! 0) \<and>
   updateConversationsWithUuidLookup serverFindsOne 1000 [0, 1] [recordKnown, recordA] =
     ([recordKnown, recordA\<lparr>uuid := Some ''66666666-ffff''\<rparr>], [(0, Some True)]) \<and>
   uuid (fst (updateConversationsWithUuidLookup serverFindsOne 1000 [0, 1]
                [recordKnown, recordA]) ! 0) = Some ''55555555-eeee'' \<and>
   discoveredUnregisteredAt
     (fst (updateConversationsWithUuidLookup serverFindsOne 1000 [0, 1]
             [recordKnown, recordA]) ! 0) = None"
proof -
  have k: "(0::nat) < length [recordKnown, recordA]" by simp
  have c: "\<forall>i \<in> set [0, 1]. i < length [recordKnown, recordA]" by simp
  have u: "uuid ([recordKnown, recordA] ! 0) = Some ''55555555-eeee''"
    by (simp add: recordKnown_def)
  have l: "cdsLookup serverFindsOne (candidatePhones [0, 1] [recordKnown, recordA]) =
     Some (map_of [(''+13215559876'', ''66666666-ffff'')])"
    by (simp add: serverFindsOne_def)
  have s: "separateNamespaces (map_of [(''+13215559876'', ''66666666-ffff'')])
             [recordKnown, recordA]"
    by (simp add: separateNamespaces_def notAnIdentifier_def recordKnown_def recordA_def
          toLowerCase_def lowerChar_def)
  have o: "lookupOmits (map_of [(''+13215559876'', ''66666666-ffff'')])
             ([recordKnown, recordA] ! 0)"
    by (simp add: lookupOmits_def recordKnown_def)
  have r: "updateConversationsWithUuidLookup serverFindsOne 1000 [0, 1] [recordKnown, recordA] =
     ([recordKnown, recordA\<lparr>uuid := Some ''66666666-ffff''\<rparr>], [(0, Some True)])"
    by (simp add: updateConversationsWithUuidLookup_def candidatePhones_def
          reconcileCandidate_def serverFindsOne_def recordKnown_def recordA_def Let_def
          maybeMergeContacts.simps FCC_get_def matchesKey_def toLowerCase_def lowerChar_def updateUuid_def)
  have h: "\<forall>sl. cdsLookup serverFindsOne (candidatePhones [0, 1] [recordKnown, recordA]) =
             Some sl \<longrightarrow>
           separateNamespaces sl [recordKnown, recordA] \<and>
           lookupOmits sl ([recordKnown, recordA] ! 0)"
    using s o unfolding l by simp
  have n: "(0, Some False) \<notin>
      set (snd (updateConversationsWithUuidLookup serverFindsOne 1000 [0, 1]
                  [recordKnown, recordA]))"
    unfolding r by simp
  from omission_keeps_account [OF k c u h n] k u l s o r show ?thesis
    by (simp add: recordKnown_def)
qed

text \<open>
  Claim C7: whenever an existence check issued during the batch reports
  non-existence for a candidate, then at the end of the batch the record's
  account identifier is unset and its \<^verbatim>\<open>discoveredUnregisteredAt\<close> is the
  current time, whether or not the record held an account identifier before,
  and whatever the lookup returned for the other candidates. The candidates
  are records of the directory, and phone numbers and identifiers come from
  separate namespaces. (The time is the one the batch runs at.)
\<close>

theorem nonexistence_unregisters:
  assumes "k < length cs" and "\<forall>i \<in> set candidates. i < length cs"
    and "\<forall>sl. cdsLookup srv (candidatePhones candidates cs) = Some sl \<longrightarrow>
           separateNamespaces sl cs"
    and "(k, Some False) \<in> set (snd (updateConversationsWithUuidLookup srv now candidates cs))"
  shows "uuid (fst (updateConversationsWithUuidLookup srv now candidates cs) ! k) = None \<and>
         discoveredUnregisteredAt
           (fst (updateConversationsWithUuidLookup srv now candidates cs) ! k) = Some now"
proof (cases "candidatePhones candidates cs = []")
  case True
  with assms(4) show ?thesis by (simp add: updateConversationsWithUuidLookup_def)
next
  case ne: False
  show ?thesis
  proof (cases "cdsLookup srv (candidatePhones candidates cs)")
    case None
    with ne assms(4) show ?thesis by (simp add: updateConversationsWithUuidLookup_def)
  next
    case (Some sl)
    with ne have run: "updateConversationsWithUuidLookup srv now candidates cs =
        fold (reconcileCandidate srv now sl) candidates (cs, [])"
      by (simp add: updateConversationsWithUuidLookup_def)
    from assms(3) Some have sep: "separateNamespaces sl cs" by simp
    from assms(4) run
    have "(k, Some False) \<in> set (snd (fold (reconcileCandidate srv now sl) candidates (cs, [])))"
      by simp
    from batch_marks_record [OF sep assms(1,2) this] run show ?thesis by simp
  qed
qed

theorem nonexistence_unregisters_witness:
  "updateConversationsWithUuidLookup serverLosesOne 1000 [0, 1, 2]
     [recordKnown, recordA, recordC] =
     ([recordKnown\<lparr>uuid := None, discoveredUnregisteredAt := Some 1000\<rparr>,
       recordA\<lparr>uuid := Some ''66666666-ffff''\<rparr>,
       recordC\<lparr>uuid := None, discoveredUnregisteredAt := Some 1000\<rparr>],
      [(0, Some False), (2, Some False)]) \<and>
   separateNamespaces (map_of [(''+13215559876'', ''66666666-ffff'')])
     [recordKnown, recordA, recordC] \<and>
   uuid (fst (updateConversationsWithUuidLookup serverLosesOne 1000 [0, 1, 2]
                [recordKnown, recordA, recordC]) ! 0) = None \<and>
   discoveredUnregisteredAt
     (fst (updateConversationsWithUuidLookup serverLosesOne 1000 [0, 1, 2]
             [recordKnown, recordA, recordC]) ! 0) = Some 1000 \<and>
   uuid (fst (updateConversationsWithUuidLookup serverLosesOne 1000 [0, 1, 2]
                [recordKnown, recordA, recordC]) ! 2) = None \<and>
   discoveredUnregisteredAt
     (fst (updateConversationsWithUuidLookup serverLosesOne 1000 [0, 1, 2]
             [recordKnown, recordA, recordC]) ! 2) = Some 1000"
proof -
  have k0: "(0::nat) < length [recordKnown, recordA, recordC]" by simp
  have k2: "(2::nat) < length [recordKnown, recordA, recordC]" by simp
  have c: "\<forall>i \<in> set [0, 1, 2]. i < length [recordKnown, recordA, recordC]" by simp
  have l: "cdsLookup serverLosesOne (candidatePhones [0, 1, 2] [recordKnown, recordA, recordC]) =
     Some (map_of [(''+13215559876'', ''66666666-ffff'')])"
    by (simp add: serverLosesOne_def)
  have s: "separateNamespaces (map_of [(''+13215559876'', ''66666666-ffff'')])
             [recordKnown, recordA, recordC]"
    by (simp add: separateNamespaces_def notAnIdentifier_def recordKnown_def recordA_def
          recordC_def toLowerCase_def lowerChar_def)
  have h: "\<forall>sl. cdsLookup serverLosesOne
                  (candidatePhones [0, 1, 2] [recordKnown, recordA, recordC]) = Some sl \<longrightarrow>
           separateNamespaces sl [recordKnown, recordA, recordC]"
    using s unfolding l by simp
  have r: "updateConversationsWithUuidLookup serverLosesOne 1000 [0, 1, 2]
     [recordKnown, recordA, recordC] =
     ([recordKnown\<lparr>uuid := None, discoveredUnregisteredAt := Some 1000\<rparr>,
       recordA\<lparr>uuid := Some ''66666666-ffff''\<rparr>,
       recordC\<lparr>uuid := None, discoveredUnregisteredAt := Some 1000\<rparr>],
      [(0, Some False), (2, Some False)])"
    by (simp add: updateConversationsWithUuidLookup_def candidatePhones_def
          reconcileCandidate_def serverLosesOne_def recordKnown_def recordA_def recordC_def
          Let_def maybeMergeContacts.simps FCC_get_def matchesKey_def toLowerCase_def
          lowerChar_def updateUuid_def markUnregistered_def)
  have n0: "(0, Some False) \<in>
      set (snd (updateConversationsWithUuidLookup serverLosesOne 1000 [0, 1, 2]
                  [recordKnown, recordA, recordC]))"
    unfolding r by simp
  have n2: "(2, Some False) \<in>
      set (snd (updateConversationsWithUuidLookup serverLosesOne 1000 [0, 1, 2]
                  [recordKnown, recordA, recordC]))"
    unfolding r by simp
  from nonexistence_unregisters [OF k0 c h n0] nonexistence_unregisters [OF k2 c h n2] r s
  show ?thesis by simp
qed

section \<open>Properties of the account check\<close>

lemma checkForAccount_never_throws: "fst (checkForAccount env phoneNumber state) = Inr ()"
  by (simp add: checkForAccount_def)

lemma known_number_skips_lookup:
  "accounts state phoneNumber \<noteq> None \<Longrightarrow>
   \<not> performedRemoteLookup (snd (checkForAccount env phoneNumber state))"
  by (simp add: checkForAccount_def performedRemoteLookup_def)

text \<open>
  The reducer never removes a key: a phone number that the store owns stays
  owned through every action.
\<close>

lemma reducer_keeps_key:
  "accounts state phoneNumber \<noteq> None \<Longrightarrow>
   accounts (reducer (Some state) act) phoneNumber \<noteq> None"
  by (cases act) (simp_all add: reducer_def)

lemma dispatchAll_keeps_key:
  "accounts state phoneNumber \<noteq> None \<Longrightarrow>
   accounts (dispatchAll acts state) phoneNumber \<noteq> None"
proof (induction acts arbitrary: state)
  case Nil
  then show ?case by simp
next
  case (Cons act acts)
  from Cons.prems have "accounts (reducer (Some state) act) phoneNumber \<noteq> None"
    by (rule reducer_keeps_key)
  then have "accounts (dispatchAll acts (reducer (Some state) act)) phoneNumber \<noteq> None"
    by (rule Cons.IH)
  then show ?case by simp
qed

text \<open>
  Claim C8, as the spec states it: after a transient failure of the remote
  lookup, a later invocation for the same phone number performs the remote
  lookup again. It does not: the failed run records the phone number in the
  store, and the next run, even with the remote service back, finds the key
  and dispatches \<^verbatim>\<open>NOOP\<close>.
\<close>

theorem failed_lookup_not_retried:
  "performedRemoteLookup (snd (checkForAccount failingEnv ''+13215559876'' getEmptyState)) \<and>
   \<not> performedRemoteLookup
       (snd (checkForAccount recoveredEnv ''+13215559876''
               (applyEffects (snd (checkForAccount failingEnv ''+13215559876'' getEmptyState))
                  getEmptyState)))"
  by (simp add: checkForAccount_def failingEnv_def recoveredEnv_def getEmptyState_def
        conversationUuid_def performedRemoteLookup_def reducer_def)

text \<open>
  Claim C8, amended: a failure of the remote lookup is absorbed. The run does
  not throw, it logs the error and dispatches the update of the phone number
  with no account identifier; the store then owns the phone number's key,
  and no later invocation for the same phone number performs the remote
  lookup, whatever actions went through the reducer in between and whatever
  the later invocation finds outside the store.
\<close>

theorem failed_lookup_is_absorbed_and_cached:
  assumes "serverPresent env"
    and "\<not> truthy (conversationUuid (controllerGet env phoneNumber))"
    and "accounts state phoneNumber = None"
    and "getUuidsForE164s env [phoneNumber] = Inl err"
  shows "fst (checkForAccount env phoneNumber state) = Inr () \<and>
         snd (checkForAccount env phoneNumber state) =
           [Logged (LogInfo (''checkForAccount: looking '' @ phoneNumber @ '' up on server'')),
            RemoteLookup [phoneNumber],
            Logged (LogError ''checkForAccount:''),
            Dispatched (AccountsUpdate phoneNumber None)] \<and>
         accounts (applyEffects (snd (checkForAccount env phoneNumber state)) state) phoneNumber =
           Some None \<and>
         (\<forall>acts env'. \<not> performedRemoteLookup
            (snd (checkForAccount env' phoneNumber
                    (dispatchAll acts
                       (applyEffects (snd (checkForAccount env phoneNumber state)) state)))))"
proof -
  from assms have tr: "snd (checkForAccount env phoneNumber state) =
           [Logged (LogInfo (''checkForAccount: looking '' @ phoneNumber @ '' up on server'')),
            RemoteLookup [phoneNumber],
            Logged (LogError ''checkForAccount:''),
            Dispatched (AccountsUpdate phoneNumber None)]"
    by (simp add: checkForAccount_def)
  then have st: "accounts (applyEffects (snd (checkForAccount env phoneNumber state)) state)
                   phoneNumber = Some None"
    by (simp add: reducer_def)
  have "\<not> performedRemoteLookup
            (snd (checkForAccount env' phoneNumber
                    (dispatchAll acts
                       (applyEffects (snd (checkForAccount env phoneNumber state)) state))))"
    for acts env'
  proof (rule known_number_skips_lookup)
    from st
    have "accounts (applyEffects (snd (checkForAccount env phoneNumber state)) state)
            phoneNumber \<noteq> None" by simp
    then show "accounts (dispatchAll acts
        (applyEffects (snd (checkForAccount env phoneNumber state)) state)) phoneNumber \<noteq> None"
      by (rule dispatchAll_keeps_key)
  qed
  with tr st checkForAccount_never_throws show ?thesis by blast
qed

theorem failed_lookup_is_absorbed_and_cached_witness:
  "serverPresent failingEnv \<and>
   \<not> truthy (conversationUuid (controllerGet failingEnv ''+13215559876'')) \<and>
   accounts getEmptyState ''+13215559876'' = None \<and>
   getUuidsForE164s failingEnv [''+13215559876''] = Inl (RemoteError ''rate limited'') \<and>
   fst (checkForAccount failingEnv ''+13215559876'' getEmptyState) = Inr () \<and>
   checkForAccount recoveredEnv ''+13215559876''
     (applyEffects (snd (checkForAccount failingEnv ''+13215559876'' getEmptyState))
        getEmptyState) = (Inr (), [Dispatched NOOP]) \<and>
   \<not> performedRemoteLookup
       (snd (checkForAccount recoveredEnv ''+13215559876''
               (dispatchAll [NOOP, AccountsUpdate ''+16545559876'' (Some ''55555555-eeee'')]
                  (applyEffects (snd (checkForAccount failingEnv ''+13215559876'' getEmptyState))
                     getEmptyState))))"
proof -
  have a: "serverPresent failingEnv" by (simp add: failingEnv_def)
  have b: "\<not> truthy (conversationUuid (controllerGet failingEnv ''+13215559876''))"
    by (simp add: failingEnv_def conversationUuid_def)
  have c: "accounts getEmptyState ''+13215559876'' = None" by (simp add: getEmptyState_def)
  have d: "getUuidsForE164s failingEnv [''+13215559876''] = Inl (RemoteError ''rate limited'')"
    by (simp add: failingEnv_def)
  note main = failed_lookup_is_absorbed_and_cached [OF a b c d]
  from main have e: "fst (checkForAccount failingEnv ''+13215559876'' getEmptyState) = Inr ()"
    by blast
  from main have k: "accounts
      (applyEffects (snd (checkForAccount failingEnv ''+13215559876'' getEmptyState))
         getEmptyState) ''+13215559876'' = Some None" by blast
  from main have l: "\<not> performedRemoteLookup
       (snd (checkForAccount recoveredEnv ''+13215559876''
               (dispatchAll [NOOP, AccountsUpdate ''+16545559876'' (Some ''55555555-eeee'')]
                  (applyEffects (snd (checkForAccount failingEnv ''+13215559876'' getEmptyState))
                     getEmptyState))))" by blast
  from k have n: "checkForAccount recoveredEnv ''+13215559876''
     (applyEffects (snd (checkForAccount failingEnv ''+13215559876'' getEmptyState))
        getEmptyState) = (Inr (), [Dispatched NOOP])"
    by (simp add: checkForAccount_def recoveredEnv_def conversationUuid_def)
  from a b c d e n l show ?thesis by blast
qed


end
